theory Spec2Isabelle
  imports Main "HOL-Library.Word" "HOL-Library.Signed_Division"
begin

section \<open>The touch-event injection tool \<open>uinput_cli.c\<close>\<close>

text \<open>
  The tool writes \<open>struct input_event\<close> records to an input device node.  The model
  keeps the program's C types: an \<open>int\<close> is a \<open>32 word\<close> read through \<open>sint\<close>, a
  \<open>long long\<close> is a \<open>64 word\<close>, the \<open>__u16\<close> type and code of an event are \<open>16 word\<close>s.
  The device is part of the state: the answers of the \<open>EVIOCGABS\<close> request, the outcome
  of every \<open>write(2)\<close> call, and the trace of what the program has done to the device.
\<close>

subsection \<open>Constants of \<open>linux/input.h\<close> used by the tool\<close>

definition EV_SYN :: "16 word" where "EV_SYN = 0x00"
definition EV_KEY :: "16 word" where "EV_KEY = 0x01"
definition EV_ABS :: "16 word" where "EV_ABS = 0x03"

definition SYN_REPORT :: "16 word" where "SYN_REPORT = 0"
definition SYN_MT_REPORT :: "16 word" where "SYN_MT_REPORT = 2"

definition BTN_TOOL_FINGER :: "16 word" where "BTN_TOOL_FINGER = 0x145"
definition BTN_TOUCH :: "16 word" where "BTN_TOUCH = 0x14a"

definition ABS_X :: "16 word" where "ABS_X = 0x00"
definition ABS_Y :: "16 word" where "ABS_Y = 0x01"
definition ABS_MT_SLOT :: "16 word" where "ABS_MT_SLOT = 0x2f"
definition ABS_MT_POSITION_X :: "16 word" where "ABS_MT_POSITION_X = 0x35"
definition ABS_MT_POSITION_Y :: "16 word" where "ABS_MT_POSITION_Y = 0x36"
definition ABS_MT_TRACKING_ID :: "16 word" where "ABS_MT_TRACKING_ID = 0x39"

subsection \<open>Events, device and program state\<close>

text \<open>
  \<open>struct input_event\<close> without its timestamp (\<open>gettimeofday\<close> is not modelled), and the
  two fields of \<open>struct input_absinfo\<close> that the tool reads.
\<close>

record input_event =
  ev_type :: "16 word"
  ev_code :: "16 word"
  ev_value :: "32 word"

record input_absinfo =
  minimum :: "32 word"
  maximum :: "32 word"

text \<open>
  What the program does to the outside world, in program order: an event accepted by
  the device, or a call of \<open>usleep\<close> with its argument (an unsigned 32-bit
  \<open>useconds_t\<close>).
\<close>

datatype action = Emit input_event | Usleep "32 word"

datatype rs = RS_OK | RS_ERR

text \<open>
  The globals of the program (\<open>ui_w\<close>, \<open>ui_h\<close>, \<open>slot_tracking\<close>, \<open>next_tracking_id\<close>,
  \<open>active_touches\<close>) and the device behind \<open>fd\<close>.  \<open>MAX_SLOTS\<close> is the length of the array
  \<open>slot_tracking\<close>.  \<open>absinfo code\<close> is the answer of \<open>ioctl(fd, EVIOCGABS(code), _)\<close>,
  \<open>None\<close> when the request fails.  \<open>wr_ok k\<close> tells whether the \<open>k\<close>-th call of
  \<open>write\<close> on the device transfers the whole event; \<open>wr_count\<close> counts the calls made.
\<close>

record sys =
  ui_w :: "32 word"
  ui_h :: "32 word"
  slot_tracking :: "32 word list"
  next_tracking_id :: "32 word"
  active_touches :: "32 word"
  absinfo :: "16 word \<Rightarrow> input_absinfo option"
  wr_ok :: "nat \<Rightarrow> bool"
  wr_count :: nat
  trace :: "action list"

definition MAX_SLOTS :: "sys \<Rightarrow> int" where
  "MAX_SLOTS s = int (length (slot_tracking s))"

text \<open>
  The state at the start of \<open>main\<close>'s command dispatch: the slot table all zero,
  \<open>next_tracking_id = 1\<close>, \<open>active_touches = 0\<close>, nothing written yet.
\<close>

definition init_sys ::
  "nat \<Rightarrow> 32 word \<Rightarrow> 32 word \<Rightarrow> (16 word \<Rightarrow> input_absinfo option) \<Rightarrow> (nat \<Rightarrow> bool) \<Rightarrow> sys" where
  "init_sys n w h ab ok =
     \<lparr>ui_w = w, ui_h = h, slot_tracking = replicate n 0, next_tracking_id = 1,
      active_touches = 0, absinfo = ab, wr_ok = ok, wr_count = 0, trace = []\<rparr>"

subsection \<open>Event emitter\<close>

definition write_event :: "16 word \<Rightarrow> 16 word \<Rightarrow> 32 word \<Rightarrow> sys \<Rightarrow> rs \<times> sys" where
  "write_event ty code val s =
     (if wr_ok s (wr_count s)
      then (RS_OK, s\<lparr>wr_count := Suc (wr_count s),
                      trace := trace s @ [Emit \<lparr>ev_type = ty, ev_code = code, ev_value = val\<rparr>]\<rparr>)
      else (RS_ERR, s\<lparr>wr_count := Suc (wr_count s)\<rparr>))"

definition syn :: "sys \<Rightarrow> rs \<times> sys" where
  "syn = write_event EV_SYN SYN_REPORT 0"

definition syn_mt :: "sys \<Rightarrow> rs \<times> sys" where
  "syn_mt = write_event EV_SYN SYN_MT_REPORT 0"

text \<open>
  \<open>msleep\<close>: \<open>if (ms > 0) usleep(ms*1000)\<close>.  The product is formed in \<open>int\<close> and passed
  as \<open>useconds_t\<close>; the model keeps its low 32 bits.
\<close>

definition msleep :: "32 word \<Rightarrow> sys \<Rightarrow> sys" where
  "msleep ms s = (if 0 < sint ms then s\<lparr>trace := trace s @ [Usleep (ms * 1000)]\<rparr> else s)"

text \<open>
  A chain \<open>a == RS_ERR || b == RS_ERR || ...\<close>: the calls run from left to right and the
  chain stops at the first one that fails.
\<close>

fun first_err :: "(sys \<Rightarrow> rs \<times> sys) list \<Rightarrow> sys \<Rightarrow> rs \<times> sys" where
  "first_err [] s = (RS_OK, s)"
| "first_err (w # ws) s =
     (case w s of (RS_ERR, s') \<Rightarrow> (RS_ERR, s') | (RS_OK, s') \<Rightarrow> first_err ws s')"

subsection \<open>Coordinate mapper\<close>

definition read_absinfo :: "sys \<Rightarrow> 16 word \<Rightarrow> input_absinfo option" where
  "read_absinfo s code = absinfo s code"

text \<open>
  The expression \<open>(l*(max-min)/ui + min)\<close> with \<open>min\<close> and \<open>max\<close> of type \<open>long long\<close>:
  \<open>l\<close> and \<open>ui\<close> are converted to \<open>long long\<close>, the division truncates towards zero, and
  the \<open>return\<close> converts the result to \<open>int\<close>, keeping the low 32 bits.
\<close>

definition ll_div :: "64 word \<Rightarrow> 64 word \<Rightarrow> 64 word" where
  "ll_div a b = word_of_int (sint a sdiv sint b)"

definition rescale :: "32 word \<Rightarrow> input_absinfo \<Rightarrow> 32 word \<Rightarrow> 32 word" where
  "rescale l ax ui =
     (let mn = (scast (minimum ax) :: 64 word); mx = (scast (maximum ax) :: 64 word)
      in ucast (ll_div (scast l * (mx - mn)) (scast ui) + mn))"

definition map_x :: "sys \<Rightarrow> 32 word \<Rightarrow> 32 word" where
  "map_x s lx =
     (if ui_w s = 0 then lx
      else case read_absinfo s ABS_MT_POSITION_X of
             Some ax \<Rightarrow> rescale lx ax (ui_w s)
           | None \<Rightarrow> (case read_absinfo s ABS_X of
                        Some ax \<Rightarrow> rescale lx ax (ui_w s)
                      | None \<Rightarrow> lx))"

definition map_y :: "sys \<Rightarrow> 32 word \<Rightarrow> 32 word" where
  "map_y s ly =
     (if ui_h s = 0 then ly
      else case read_absinfo s ABS_MT_POSITION_Y of
             Some ay \<Rightarrow> rescale ly ay (ui_h s)
           | None \<Rightarrow> (case read_absinfo s ABS_Y of
                        Some ay \<Rightarrow> rescale ly ay (ui_h s)
                      | None \<Rightarrow> ly))"

subsection \<open>Single-precision arithmetic of \<open>do_swipe\<close>\<close>

text \<open>
  \<open>do_swipe\<close> interpolates in \<open>float\<close>.  A finite \<open>float\<close> is modelled by its exact value,
  a fraction (numerator, denominator) whose denominator is a positive power of two.
  \<open>f32_round\<close> rounds a fraction \<open>p/q\<close> with \<open>0 < q\<close> to the nearest value with a 24-bit
  significand, ties to even (IEEE 754 binary32, each operation rounded once, as with
  \<open>FLT_EVAL_METHOD = 0\<close> and no contraction).  The values that \<open>do_swipe\<close> forms lie
  between \<open>2^-31\<close> and \<open>2^33\<close> in magnitude or are zero, so neither infinities nor
  subnormal numbers arise.
\<close>

type_synonym frac = "int \<times> int"

text \<open>The number of binary digits of a positive integer.\<close>

function bitlen :: "int \<Rightarrow> int" where
  "bitlen n = (if n \<le> 0 then 0 else 1 + bitlen (n div 2))"
  by pat_completeness auto
termination
  by (relation "measure nat") auto

definition f32_round :: "frac \<Rightarrow> frac" where
  "f32_round x =
     (let p = fst x; q = snd x; a = \<bar>p\<bar> in
      if p = 0 then (0, 1)
      else
        let e0 = bitlen a - bitlen q;
            e = (if (if e0 < 0 then q \<le> a * 2 ^ nat (- e0) else q * 2 ^ nat e0 \<le> a)
                 then e0 else e0 - 1);
            u = e - 23;
            n = (if u < 0 then a * 2 ^ nat (- u) else a);
            d = (if u < 0 then q else q * 2 ^ nat u);
            k = n div d;
            r = n mod d;
            k' = (if 2 * r < d then k else if d < 2 * r then k + 1
                  else if even k then k else k + 1)
        in if u < 0 then (sgn p * k', 2 ^ nat (- u)) else (sgn p * k' * 2 ^ nat u, 1))"

definition f32_of_int :: "int \<Rightarrow> frac" where
  "f32_of_int n = f32_round (n, 1)"

definition f32_div :: "frac \<Rightarrow> frac \<Rightarrow> frac" where
  "f32_div x y =
     f32_round (sgn (fst y) * fst x * snd y, \<bar>fst y\<bar> * snd x)"

definition f32_mul :: "frac \<Rightarrow> frac \<Rightarrow> frac" where
  "f32_mul x y = f32_round (fst x * fst y, snd x * snd y)"

definition f32_add :: "frac \<Rightarrow> frac \<Rightarrow> frac" where
  "f32_add x y = f32_round (fst x * snd y + fst y * snd x, snd x * snd y)"

text \<open>
  Conversion of a \<open>float\<close> to \<open>int\<close> discards the fraction.  A value outside the range of
  \<open>int\<close> is undefined behaviour in C; the model saturates, as the conversion instruction
  of the Makefile's target (\<open>arm-linux-gnueabihf\<close>) does.
\<close>

definition f32_to_int :: "frac \<Rightarrow> 32 word" where
  "f32_to_int x = word_of_int (max (- (2 ^ 31)) (min (2 ^ 31 - 1) (fst x sdiv snd x)))"

text \<open>
  \<open>float t = (float)i / steps\<close> and \<open>int xi = x1 + (x2 - x1) * t\<close>: the difference is
  formed in \<open>int\<close> (the model keeps its low 32 bits where C leaves the overflow
  undefined), then converted; product and sum are \<open>float\<close> operations.
\<close>

definition swipe_t :: "int \<Rightarrow> 32 word \<Rightarrow> frac" where
  "swipe_t i steps = f32_div (f32_of_int i) (f32_of_int (sint steps))"

definition lerp :: "32 word \<Rightarrow> 32 word \<Rightarrow> frac \<Rightarrow> 32 word" where
  "lerp a b t = f32_to_int (f32_add (f32_of_int (sint a)) (f32_mul (f32_of_int (sint (b - a))) t))"

subsection \<open>Single-touch gestures\<close>

definition btn_touch_set :: "32 word \<Rightarrow> sys \<Rightarrow> rs \<times> sys" where
  "btn_touch_set val s =
     (case write_event EV_KEY BTN_TOUCH val s of
        (RS_ERR, s') \<Rightarrow> (RS_ERR, s')
      | (RS_OK, s') \<Rightarrow> syn s')"

definition do_tap :: "32 word \<Rightarrow> 32 word \<Rightarrow> 32 word \<Rightarrow> sys \<Rightarrow> rs \<times> sys" where
  "do_tap lx ly hold_ms s =
     (let x = map_x s lx; y = map_y s ly in
      case first_err [write_event EV_KEY BTN_TOUCH 1,
                      write_event EV_KEY BTN_TOOL_FINGER 1,
                      write_event EV_ABS ABS_MT_POSITION_X x,
                      write_event EV_ABS ABS_MT_POSITION_Y y,
                      syn_mt, syn] s of
        (RS_ERR, s1) \<Rightarrow> (RS_ERR, s1)
      | (RS_OK, s1) \<Rightarrow>
          first_err [write_event EV_KEY BTN_TOUCH 0,
                     write_event EV_KEY BTN_TOOL_FINGER 0,
                     syn_mt, syn] (msleep hold_ms s1))"

definition do_press :: "32 word \<Rightarrow> 32 word \<Rightarrow> sys \<Rightarrow> rs \<times> sys" where
  "do_press lx ly s =
     (let x = map_x s lx; y = map_y s ly in
      first_err [write_event EV_KEY BTN_TOUCH 1,
                 write_event EV_KEY BTN_TOOL_FINGER 1,
                 write_event EV_ABS ABS_MT_POSITION_X x,
                 write_event EV_ABS ABS_MT_POSITION_Y y,
                 syn_mt, syn] s)"

definition do_release :: "sys \<Rightarrow> rs \<times> sys" where
  "do_release s =
     first_err [write_event EV_KEY BTN_TOUCH 0,
                write_event EV_KEY BTN_TOOL_FINGER 0,
                syn_mt, syn] s"

definition do_longpress :: "32 word \<Rightarrow> 32 word \<Rightarrow> 32 word \<Rightarrow> sys \<Rightarrow> rs \<times> sys" where
  "do_longpress lx ly hold_ms s = do_tap lx ly hold_ms s"

text \<open>
  The loop \<open>for (int i = 1; i <= steps; i++)\<close> of \<open>do_swipe\<close>.  The counter is an
  unbounded integer here: for \<open>steps = INT_MAX\<close> the C counter overflows, which is
  undefined behaviour, and the model lets the loop end after \<open>steps\<close> rounds.  The
  quotient \<open>duration_ms / steps\<close> truncates towards zero; \<open>steps\<close> is at least 1 there.
\<close>

function swipe_loop ::
  "int \<Rightarrow> 32 word \<Rightarrow> 32 word \<Rightarrow> 32 word \<Rightarrow> 32 word \<Rightarrow> 32 word \<Rightarrow> 32 word \<Rightarrow> sys \<Rightarrow> rs \<times> sys" where
  "swipe_loop i x1 y1 x2 y2 duration_ms steps s =
     (if i \<le> sint steps then
        (let t = swipe_t i steps; xi = lerp x1 x2 t; yi = lerp y1 y2 t in
         case first_err [write_event EV_ABS ABS_X (map_x s xi),
                         write_event EV_ABS ABS_Y (map_y s yi),
                         syn] s of
           (RS_ERR, s') \<Rightarrow> (RS_ERR, s')
         | (RS_OK, s') \<Rightarrow>
             swipe_loop (i + 1) x1 y1 x2 y2 duration_ms steps
               (msleep (word_of_int (sint duration_ms sdiv sint steps)) s'))
      else (RS_OK, s))"
  by pat_completeness auto
termination
  by (relation "measure (\<lambda>(i, x1, y1, x2, y2, d, steps, s). nat (sint steps + 1 - i))") auto

definition do_swipe ::
  "32 word \<Rightarrow> 32 word \<Rightarrow> 32 word \<Rightarrow> 32 word \<Rightarrow> 32 word \<Rightarrow> 32 word \<Rightarrow> sys \<Rightarrow> rs \<times> sys" where
  "do_swipe x1 y1 x2 y2 duration_ms steps0 s =
     (let steps = (if sint steps0 < 1 then 10 else steps0) in
      case do_tap x1 y1 0 s of
        (RS_ERR, s1) \<Rightarrow> (RS_ERR, s1)
      | (RS_OK, s1) \<Rightarrow>
          (case swipe_loop 1 x1 y1 x2 y2 duration_ms steps s1 of
             (RS_ERR, s2) \<Rightarrow> (RS_ERR, s2)
           | (RS_OK, s2) \<Rightarrow> first_err [write_event EV_KEY BTN_TOUCH 0, syn] s2))"

subsection \<open>Multi-touch operations (compiled when \<open>MAX_SLOTS > 1\<close>)\<close>

definition mt_down :: "32 word \<Rightarrow> 32 word \<Rightarrow> 32 word \<Rightarrow> sys \<Rightarrow> rs \<times> sys" where
  "mt_down slot lx ly s =
     (if sint slot < 0 \<or> MAX_SLOTS s \<le> sint slot then (RS_ERR, s)
      else
        let x = map_x s lx; y = map_y s ly;
            tid = next_tracking_id s;
            s1 = s\<lparr>next_tracking_id := next_tracking_id s + 1\<rparr>;
            s2 = (if 1000000 < sint (next_tracking_id s1) then s1\<lparr>next_tracking_id := 1\<rparr> else s1);
            s3 = s2\<lparr>slot_tracking := (slot_tracking s2)[nat (sint slot) := tid]\<rparr>
        in case (if active_touches s3 = 0 then btn_touch_set 1 s3 else (RS_OK, s3)) of
             (RS_ERR, s4) \<Rightarrow> (RS_ERR, s4)
           | (RS_OK, s4) \<Rightarrow>
               first_err [write_event EV_ABS ABS_MT_SLOT slot,
                          write_event EV_ABS ABS_MT_TRACKING_ID tid,
                          write_event EV_ABS ABS_MT_POSITION_X x,
                          write_event EV_ABS ABS_MT_POSITION_Y y,
                          syn_mt, syn]
                 (s4\<lparr>active_touches := active_touches s4 + 1\<rparr>))"

definition mt_move :: "32 word \<Rightarrow> 32 word \<Rightarrow> 32 word \<Rightarrow> sys \<Rightarrow> rs \<times> sys" where
  "mt_move slot lx ly s =
     (if sint slot < 0 \<or> MAX_SLOTS s \<le> sint slot then (RS_ERR, s)
      else if slot_tracking s ! nat (sint slot) = 0 then (RS_ERR, s)
      else
        let x = map_x s lx; y = map_y s ly in
        first_err [write_event EV_ABS ABS_MT_SLOT slot,
                   write_event EV_ABS ABS_MT_POSITION_X x,
                   write_event EV_ABS ABS_MT_POSITION_Y y,
                   syn_mt, syn] s)"

definition mt_up :: "32 word \<Rightarrow> sys \<Rightarrow> rs \<times> sys" where
  "mt_up slot s =
     (if sint slot < 0 \<or> MAX_SLOTS s \<le> sint slot then (RS_ERR, s)
      else if slot_tracking s ! nat (sint slot) = 0 then (RS_ERR, s)
      else
        case first_err [write_event EV_ABS ABS_MT_SLOT slot,
                        write_event EV_ABS ABS_MT_TRACKING_ID (- 1),
                        syn_mt, syn] s of
          (RS_ERR, s1) \<Rightarrow> (RS_ERR, s1)
        | (RS_OK, s1) \<Rightarrow>
            let s2 = s1\<lparr>slot_tracking := (slot_tracking s1)[nat (sint slot) := 0]\<rparr>;
                s3 = s2\<lparr>active_touches := active_touches s2 - 1\<rparr>
            in if sint (active_touches s3) \<le> 0
               then btn_touch_set 0 (s3\<lparr>active_touches := 0\<rparr>)
               else (RS_OK, s3))"

text \<open>Sequences of multi-touch operations on one tracker, run in order.\<close>

datatype mt_op =
    MtDown "32 word" "32 word" "32 word"
  | MtMove "32 word" "32 word" "32 word"
  | MtUp "32 word"

fun mt_exec :: "mt_op \<Rightarrow> sys \<Rightarrow> rs \<times> sys" where
  "mt_exec (MtDown slot lx ly) s = mt_down slot lx ly s"
| "mt_exec (MtMove slot lx ly) s = mt_move slot lx ly s"
| "mt_exec (MtUp slot) s = mt_up slot s"

fun mt_run :: "mt_op list \<Rightarrow> sys \<Rightarrow> sys" where
  "mt_run [] s = s"
| "mt_run (c # cs) s = mt_run cs (snd (mt_exec c s))"

subsection \<open>Observations on the trace\<close>

definition is_syn_report :: "action \<Rightarrow> bool" where
  "is_syn_report a =
     (case a of Emit e \<Rightarrow> ev_type e = EV_SYN \<and> ev_code e = SYN_REPORT | Usleep _ \<Rightarrow> False)"

definition syn_reports :: "action list \<Rightarrow> nat" where
  "syn_reports tr = length (filter is_syn_report tr)"


definition touch_step :: "bool \<Rightarrow> action \<Rightarrow> bool" where
  "touch_step b a =
     (case a of
        Emit e \<Rightarrow> (if ev_type e = EV_KEY \<and> ev_code e = BTN_TOUCH then ev_value e \<noteq> 0 else b)
      | Usleep _ \<Rightarrow> b)"

text \<open>
  The aggregate touch-contact signal as the device sees it: the value of the last
  \<open>BTN_TOUCH\<close> key event it accepted, released when there was none.
\<close>

definition touch_asserted :: "action list \<Rightarrow> bool" where
  "touch_asserted tr = foldl touch_step False tr"

definition active_slots :: "sys \<Rightarrow> nat" where
  "active_slots s = length (filter (\<lambda>t. t \<noteq> 0) (slot_tracking s))"

text \<open>
  The tracker invariant of the specification: the active-touch count is the number of
  slots with a nonzero tracking ID, and the touch-contact signal is asserted exactly
  when the count is positive.
\<close>

definition tracker_ok :: "sys \<Rightarrow> bool" where
  "tracker_ok s =
     (sint (active_touches s) = int (active_slots s)
      \<and> (touch_asserted (trace s) \<longleftrightarrow> 0 < sint (active_touches s)))"

definition id_in_range :: "32 word \<Rightarrow> bool" where
  "id_in_range t = (1 \<le> sint t \<and> sint t \<le> 1000000)"

text \<open>
  The invariant that carries the tracker property through a run on a device that
  accepts every write.
\<close>

definition tracker_inv :: "sys \<Rightarrow> bool" where
  "tracker_inv s =
     (length (slot_tracking s) < 2 ^ 31 \<and> (\<forall>k. wr_ok s k) \<and> id_in_range (next_tracking_id s)
      \<and> tracker_ok s)"

text \<open>The tracking IDs of the active slots, in slot order.\<close>

definition active_ids :: "sys \<Rightarrow> 32 word list" where
  "active_ids s = filter (\<lambda>t. t \<noteq> 0) (slot_tracking s)"

text \<open>
  The invariant behind the uniqueness of tracking IDs: after \<open>k\<close> allocations, with
  \<open>k\<close> at most 1000000, the active IDs are distinct values of \<open>1..k\<close> and the counter
  holds \<open>k + 1\<close>, or 1 once \<open>k\<close> has reached 1000000.
\<close>

definition ids_inv :: "nat \<Rightarrow> sys \<Rightarrow> bool" where
  "ids_inv k s =
     ((\<forall>t \<in> set (slot_tracking s). t \<noteq> 0 \<longrightarrow> 1 \<le> sint t \<and> sint t \<le> int k)
      \<and> distinct (filter (\<lambda>t. t \<noteq> 0) (slot_tracking s))
      \<and> (if k < 1000000 then sint (next_tracking_id s) = int k + 1
          else k = 1000000 \<and> next_tracking_id s = 1))"

text \<open>
  The states met while one finger stays down on slot 0 with tracking ID 1 and a second
  finger taps on slot 1, on a device with two slots that accepts every write.
\<close>

definition held_state :: "sys \<Rightarrow> bool" where
  "held_state s =
     (slot_tracking s = [1, 0] \<and> active_touches s = 1 \<and> (\<forall>j. wr_ok s j)
      \<and> id_in_range (next_tracking_id s))"

definition tap_slot1 :: "mt_op list" where
  "tap_slot1 = [MtDown 1 300 150, MtUp 1]"

definition reuse_run :: "mt_op list" where
  "reuse_run = MtDown 0 150 150 # concat (replicate 999999 tap_slot1) @ [MtDown 1 300 150]"

subsection \<open>The coordinate mapper in one form for both axes\<close>

text \<open>
  The axis information that \<open>map_x\<close> and \<open>map_y\<close> end up with: that of the multi-touch
  position axis when its query succeeds, otherwise that of the single-touch axis.
\<close>

definition x_axis_info :: "sys \<Rightarrow> input_absinfo option" where
  "x_axis_info s =
     (case read_absinfo s ABS_MT_POSITION_X of Some ax \<Rightarrow> Some ax | None \<Rightarrow> read_absinfo s ABS_X)"

definition y_axis_info :: "sys \<Rightarrow> input_absinfo option" where
  "y_axis_info s =
     (case read_absinfo s ABS_MT_POSITION_Y of Some ay \<Rightarrow> Some ay | None \<Rightarrow> read_absinfo s ABS_Y)"

text \<open>
  The value of \<open>l * (max - min) / ui + min\<close> over the integers, before the conversion to
  \<open>int\<close> of the \<open>return\<close> statement, and the property of lying in the range of \<open>int\<close>.
\<close>

definition exact_coord :: "32 word \<Rightarrow> input_absinfo option \<Rightarrow> 32 word \<Rightarrow> int" where
  "exact_coord ui ax l =
     (if ui = 0 then sint l
      else case ax of
             Some a \<Rightarrow> sint l * (sint (maximum a) - sint (minimum a)) sdiv sint ui + sint (minimum a)
           | None \<Rightarrow> sint l)"

definition fits_int :: "int \<Rightarrow> bool" where
  "fits_int v = (- (2 ^ 31) \<le> v \<and> v < 2 ^ 31)"

subsection \<open>Concrete devices for the examples\<close>

definition all_ok :: "nat \<Rightarrow> bool" where
  "all_ok k = True"

definition fail_at :: "nat \<Rightarrow> nat \<Rightarrow> bool" where
  "fail_at n k = (k \<noteq> n)"

definition no_abs :: "16 word \<Rightarrow> input_absinfo option" where
  "no_abs c = None"

definition abs_range :: "32 word \<Rightarrow> 32 word \<Rightarrow> 16 word \<Rightarrow> input_absinfo option" where
  "abs_range mn mx c = Some \<lparr>minimum = mn, maximum = mx\<rparr>"

definition abs_st_only :: "32 word \<Rightarrow> 32 word \<Rightarrow> 16 word \<Rightarrow> input_absinfo option" where
  "abs_st_only mn mx c =
     (if c = ABS_X \<or> c = ABS_Y then Some \<lparr>minimum = mn, maximum = mx\<rparr> else None)"

subsection \<open>Event sequences of the gestures\<close>

text \<open>
  A chain of \<open>write_event\<close> calls, given by the events to write, and the sequences that
  the gestures put on the device when every write succeeds.
\<close>

abbreviation ev :: "16 word \<Rightarrow> 16 word \<Rightarrow> 32 word \<Rightarrow> input_event" where
  "ev t c v \<equiv> \<lparr>ev_type = t, ev_code = c, ev_value = v\<rparr>"

definition wev :: "input_event \<Rightarrow> sys \<Rightarrow> rs \<times> sys" where
  "wev e = write_event (ev_type e) (ev_code e) (ev_value e)"

definition chain :: "input_event list \<Rightarrow> sys \<Rightarrow> rs \<times> sys" where
  "chain es = first_err (map wev es)"

definition contact_events :: "32 word \<Rightarrow> 32 word \<Rightarrow> input_event list" where
  "contact_events x y =
     [ev EV_KEY BTN_TOUCH 1, ev EV_KEY BTN_TOOL_FINGER 1,
      ev EV_ABS ABS_MT_POSITION_X x, ev EV_ABS ABS_MT_POSITION_Y y,
      ev EV_SYN SYN_MT_REPORT 0, ev EV_SYN SYN_REPORT 0]"

definition release_events :: "input_event list" where
  "release_events =
     [ev EV_KEY BTN_TOUCH 0, ev EV_KEY BTN_TOOL_FINGER 0,
      ev EV_SYN SYN_MT_REPORT 0, ev EV_SYN SYN_REPORT 0]"

definition sleep_actions :: "32 word \<Rightarrow> action list" where
  "sleep_actions ms = (if 0 < sint ms then [Usleep (ms * 1000)] else [])"

definition tap_actions :: "sys \<Rightarrow> 32 word \<Rightarrow> 32 word \<Rightarrow> 32 word \<Rightarrow> action list" where
  "tap_actions s lx ly hold_ms =
     map Emit (contact_events (map_x s lx) (map_y s ly)) @ sleep_actions hold_ms
     @ map Emit release_events"

text \<open>The \<open>i\<close>-th round of the loop of \<open>do_swipe\<close>: two positions, a frame commit, a sleep.\<close>

definition frame_events ::
  "sys \<Rightarrow> 32 word \<Rightarrow> 32 word \<Rightarrow> 32 word \<Rightarrow> 32 word \<Rightarrow> 32 word \<Rightarrow> int \<Rightarrow> input_event list" where
  "frame_events s x1 y1 x2 y2 steps i =
     [ev EV_ABS ABS_X (map_x s (lerp x1 x2 (swipe_t i steps))),
      ev EV_ABS ABS_Y (map_y s (lerp y1 y2 (swipe_t i steps))),
      ev EV_SYN SYN_REPORT 0]"

definition swipe_frame ::
  "sys \<Rightarrow> 32 word \<Rightarrow> 32 word \<Rightarrow> 32 word \<Rightarrow> 32 word \<Rightarrow> 32 word \<Rightarrow> 32 word \<Rightarrow> int \<Rightarrow> action list" where
  "swipe_frame s x1 y1 x2 y2 duration_ms steps i =
     map Emit (frame_events s x1 y1 x2 y2 steps i)
     @ sleep_actions (word_of_int (sint duration_ms sdiv sint steps))"

definition swipe_steps :: "32 word \<Rightarrow> 32 word" where
  "swipe_steps steps = (if sint steps < 1 then 10 else steps)"

definition lift_events :: "input_event list" where
  "lift_events = [ev EV_KEY BTN_TOUCH 0, ev EV_SYN SYN_REPORT 0]"

text \<open>The sequences of the multi-touch operations, and the successor of the ID counter.\<close>

definition touch_events :: "32 word \<Rightarrow> input_event list" where
  "touch_events val = [ev EV_KEY BTN_TOUCH val, ev EV_SYN SYN_REPORT 0]"

definition down_events :: "32 word \<Rightarrow> 32 word \<Rightarrow> 32 word \<Rightarrow> 32 word \<Rightarrow> input_event list" where
  "down_events slot tid x y =
     [ev EV_ABS ABS_MT_SLOT slot, ev EV_ABS ABS_MT_TRACKING_ID tid,
      ev EV_ABS ABS_MT_POSITION_X x, ev EV_ABS ABS_MT_POSITION_Y y,
      ev EV_SYN SYN_MT_REPORT 0, ev EV_SYN SYN_REPORT 0]"

definition move_events :: "32 word \<Rightarrow> 32 word \<Rightarrow> 32 word \<Rightarrow> input_event list" where
  "move_events slot x y =
     [ev EV_ABS ABS_MT_SLOT slot,
      ev EV_ABS ABS_MT_POSITION_X x, ev EV_ABS ABS_MT_POSITION_Y y,
      ev EV_SYN SYN_MT_REPORT 0, ev EV_SYN SYN_REPORT 0]"

definition up_events :: "32 word \<Rightarrow> input_event list" where
  "up_events slot =
     [ev EV_ABS ABS_MT_SLOT slot, ev EV_ABS ABS_MT_TRACKING_ID (- 1),
      ev EV_SYN SYN_MT_REPORT 0, ev EV_SYN SYN_REPORT 0]"

definition next_id :: "32 word \<Rightarrow> 32 word" where
  "next_id n = (if 1000000 < sint (n + 1) then 1 else n + 1)"

text \<open>The tracker after the allocation in \<open>mt_down\<close>, before any write.\<close>

definition alloc :: "32 word \<Rightarrow> sys \<Rightarrow> sys" where
  "alloc slot s =
     s\<lparr>next_tracking_id := next_id (next_tracking_id s),
       slot_tracking := (slot_tracking s)[nat (sint slot) := next_tracking_id s]\<rparr>"

definition in_bounds :: "sys \<Rightarrow> 32 word \<Rightarrow> bool" where
  "in_bounds s slot = (0 \<le> sint slot \<and> sint slot < MAX_SLOTS s)"

text \<open>
  A sequence of operations in which every \<open>mt-down\<close> on a slot of the table finds that
  slot inactive, checked along the run from state \<open>s\<close>.
\<close>

fun fresh_downs :: "mt_op list \<Rightarrow> sys \<Rightarrow> bool" where
  "fresh_downs [] s = True"
| "fresh_downs (c # cs) s =
     ((case c of
         MtDown slot _ _ \<Rightarrow> (if in_bounds s slot then slot_tracking s ! nat (sint slot) = 0 else True)
       | _ \<Rightarrow> True)
      \<and> fresh_downs cs (snd (mt_exec c s)))"

text \<open>An operation that takes a tracking ID from the counter: an \<open>mt-down\<close> on a slot of a table of \<open>n\<close> slots.\<close>

definition is_alloc :: "nat \<Rightarrow> mt_op \<Rightarrow> bool" where
  "is_alloc n c = (case c of MtDown slot _ _ \<Rightarrow> 0 \<le> sint slot \<and> sint slot < int n | _ \<Rightarrow> False)"

definition is_mt_position :: "action \<Rightarrow> bool" where
  "is_mt_position a =
     (case a of
        Emit e \<Rightarrow> ev_type e = EV_ABS \<and> (ev_code e = ABS_MT_POSITION_X \<or> ev_code e = ABS_MT_POSITION_Y)
      | Usleep _ \<Rightarrow> False)"

definition is_syn_mt_report :: "action \<Rightarrow> bool" where
  "is_syn_mt_report a =
     (case a of Emit e \<Rightarrow> ev_type e = EV_SYN \<and> ev_code e = SYN_MT_REPORT | Usleep _ \<Rightarrow> False)"

definition is_abs_event :: "action \<Rightarrow> bool" where
  "is_abs_event a = (case a of Emit e \<Rightarrow> ev_type e = EV_ABS | Usleep _ \<Rightarrow> False)"

text \<open>An action that is neither a multi-touch position nor a multi-touch report marker.\<close>

definition st_only :: "action \<Rightarrow> bool" where
  "st_only a = (\<not> is_mt_position a \<and> \<not> is_syn_mt_report a)"

section \<open>Properties\<close>

lemmas input_codes =
  EV_SYN_def EV_KEY_def EV_ABS_def SYN_REPORT_def SYN_MT_REPORT_def
  BTN_TOOL_FINGER_def BTN_TOUCH_def ABS_X_def ABS_Y_def ABS_MT_SLOT_def
  ABS_MT_POSITION_X_def ABS_MT_POSITION_Y_def ABS_MT_TRACKING_ID_def

subsection \<open>Chains of writes\<close>

lemma write_event_wev: "write_event t c v = wev (ev t c v)"
  by (simp add: wev_def)

lemma syn_wev: "syn = wev (ev EV_SYN SYN_REPORT 0)" "syn_mt = wev (ev EV_SYN SYN_MT_REPORT 0)"
  by (simp_all add: wev_def syn_def syn_mt_def)

lemma ev_eta [simp]: "ev (ev_type e) (ev_code e) (ev_value e) = e"
  by (cases e) simp

lemma chain_Nil: "chain [] s = (RS_OK, s)"
  by (simp add: chain_def)

lemma chain_Cons:
  "chain (e # es) s =
     (if wr_ok s (wr_count s)
      then chain es (s\<lparr>wr_count := Suc (wr_count s), trace := trace s @ [Emit e]\<rparr>)
      else (RS_ERR, s\<lparr>wr_count := Suc (wr_count s)\<rparr>))"
  by (simp add: chain_def wev_def write_event_def)

lemma first_err_chain:
  "first_err [wev a] = chain [a]"
  "first_err [wev a, wev b] = chain [a, b]"
  "first_err [wev a, wev b, wev c] = chain [a, b, c]"
  "first_err [wev a, wev b, wev c, wev d] = chain [a, b, c, d]"
  "first_err [wev a, wev b, wev c, wev d, wev e] = chain [a, b, c, d, e]"
  "first_err [wev a, wev b, wev c, wev d, wev e, wev f] = chain [a, b, c, d, e, f]"
  by (simp_all add: chain_def)

text \<open>A chain of writes changes only the write counter and the trace.\<close>

lemma chain_frame:
  "ui_w (snd (chain es s)) = ui_w s \<and> ui_h (snd (chain es s)) = ui_h s
   \<and> slot_tracking (snd (chain es s)) = slot_tracking s
   \<and> next_tracking_id (snd (chain es s)) = next_tracking_id s
   \<and> active_touches (snd (chain es s)) = active_touches s
   \<and> absinfo (snd (chain es s)) = absinfo s \<and> wr_ok (snd (chain es s)) = wr_ok s"
  by (induction es arbitrary: s) (simp_all add: chain_Nil chain_Cons)

lemma chain_ok_trace:
  "fst (chain es s) = RS_OK \<Longrightarrow>
     snd (chain es s) = s\<lparr>wr_count := wr_count s + length es, trace := trace s @ map Emit es\<rparr>"
proof (induction es arbitrary: s)
  case Nil
  then show ?case by (simp add: chain_Nil)
next
  case (Cons e es)
  then show ?case by (simp add: chain_Cons split: if_splits)
qed

lemma all_less_Suc_shift:
  "(\<forall>k < Suc n. P (c + k)) \<longleftrightarrow> P c \<and> (\<forall>k < n. P (Suc (c + k)))"
  by (auto simp: less_Suc_eq_0_disj)

lemma chain_ok_iff:
  "fst (chain es s) = RS_OK \<longleftrightarrow> (\<forall>k < length es. wr_ok s (wr_count s + k))"
proof (induction es arbitrary: s)
  case Nil
  then show ?case by (simp add: chain_Nil)
next
  case (Cons e es)
  have "(\<forall>k < length (e # es). wr_ok s (wr_count s + k)) \<longleftrightarrow>
      wr_ok s (wr_count s) \<and> (\<forall>k < length es. wr_ok s (Suc (wr_count s + k)))"
    using all_less_Suc_shift [of "length es" "wr_ok s" "wr_count s"] by simp
  then show ?case
    by (simp add: chain_Cons Cons.IH del: length_Cons)
qed

lemma chain_prefix:
  "\<exists>j \<le> length es. trace (snd (chain es s)) = trace s @ map Emit (take j es)"
proof (induction es arbitrary: s)
  case Nil
  then show ?case by (simp add: chain_Nil)
next
  case (Cons e es)
  show ?case
  proof (cases "wr_ok s (wr_count s)")
    case True
    from Cons.IH [of "s\<lparr>wr_count := Suc (wr_count s), trace := trace s @ [Emit e]\<rparr>"]
    obtain j where "j \<le> length es"
      "trace (snd (chain es (s\<lparr>wr_count := Suc (wr_count s), trace := trace s @ [Emit e]\<rparr>)))
         = trace s @ Emit e # map Emit (take j es)" by auto
    then show ?thesis using True
      by (intro exI [of _ "Suc j"]) (simp add: chain_Cons)
  next
    case False
    then show ?thesis by (intro exI [of _ 0]) (simp add: chain_Cons)
  qed
qed

subsection \<open>Rounding to single precision\<close>

text \<open>
  \<open>1/3\<close> and \<open>1/10\<close> round to the \<open>float\<close> values \<open>0x3eaaaaab\<close> and \<open>0x3dcccccd\<close>; integers
  up to \<open>2^24\<close> are exact, and beyond that a tie goes to the even significand.
\<close>

lemma f32_round_examples:
  "f32_round (1, 3) = (11184811, 2 ^ 25)"
  "f32_round (1, 10) = (13421773, 2 ^ 27)"
  "f32_of_int 16777216 = (16777216, 1)"
  "f32_of_int 16777217 = (16777216, 1)"
  "f32_of_int 16777219 = (16777220, 1)"
  "f32_of_int (- 300) = (- 300 * 2 ^ 15, 2 ^ 15)"
  by (simp_all add: f32_round_def f32_of_int_def Let_def)

subsection \<open>Arithmetic of the coordinate mapper\<close>

lemma sint_scast_32_64: "sint (scast (w :: 32 word) :: 64 word) = sint w"
  by (rule sint_up_scast) (simp add: is_up)

lemma sint32_bounds: "- 2147483648 \<le> sint (w :: 32 word) \<and> sint w \<le> 2147483647"
  using sint_ge [of w] sint_lt [of w] by simp

lemma prod_bound:
  fixes a d :: int
  assumes "\<bar>a\<bar> \<le> 2147483648" "\<bar>d\<bar> \<le> 4294967295"
  shows "\<bar>a * d\<bar> \<le> 9223372034707292160"
proof -
  have "\<bar>a\<bar> * \<bar>d\<bar> \<le> 2147483648 * 4294967295"
    using assms by (intro mult_mono) auto
  then show ?thesis by (simp add: abs_mult)
qed

lemma sint_ll_diff:
  "sint ((scast (mx :: 32 word) :: 64 word) - scast (mn :: 32 word)) = sint mx - sint mn"
proof -
  have "- (2 ^ 63) \<le> sint mx - sint mn \<and> sint mx - sint mn < 2 ^ 63"
    using sint32_bounds [of mx] sint32_bounds [of mn] by simp
  then show ?thesis
    by (simp add: sint_word_diff sint_scast_32_64 signed_take_bit_int_eq_self)
qed

text \<open>The product \<open>l*(max-min)\<close> never overflows \<open>long long\<close>.\<close>

lemma sint_ll_prod:
  "sint ((scast (l :: 32 word) :: 64 word) * (scast (mx :: 32 word) - scast (mn :: 32 word)))
     = sint l * (sint mx - sint mn)"
proof -
  have "\<bar>sint l * (sint mx - sint mn)\<bar> \<le> 9223372034707292160"
    using sint32_bounds [of l] sint32_bounds [of mx] sint32_bounds [of mn]
    by (intro prod_bound) auto
  then have "- (2 ^ 63) \<le> sint l * (sint mx - sint mn) \<and> sint l * (sint mx - sint mn) < 2 ^ 63"
    by (simp add: abs_le_iff)
  then show ?thesis
    by (simp add: sint_word_mult sint_scast_32_64 sint_ll_diff signed_take_bit_int_eq_self)
qed

lemma ucast_ll_of_int: "(ucast (word_of_int k :: 64 word) :: 32 word) = word_of_int k"
  by (simp add: unsigned_of_int word_of_int_eq_iff)

lemma rescale_eq:
  "rescale l ax ui =
     word_of_int (sint l * (sint (maximum ax) - sint (minimum ax)) sdiv sint ui + sint (minimum ax))"
proof -
  have mn: "(scast (minimum ax) :: 64 word) = word_of_int (sint (minimum ax))"
    by (rule of_int_sint [symmetric])
  have "rescale l ax ui =
      ucast (word_of_int (sint l * (sint (maximum ax) - sint (minimum ax)) sdiv sint ui)
             + (scast (minimum ax) :: 64 word))"
    by (simp add: rescale_def Let_def ll_div_def sint_ll_prod sint_scast_32_64)
  also have "\<dots> = ucast (word_of_int (sint l * (sint (maximum ax) - sint (minimum ax)) sdiv sint ui
             + sint (minimum ax)) :: 64 word)"
    by (simp only: mn wi_hom_add)
  finally show ?thesis
    by (simp only: ucast_ll_of_int)
qed

lemma sdiv_pos_cases:
  fixes a c :: int
  assumes "0 < c"
  shows "a sdiv c = (if 0 \<le> a then a div c else - ((- a) div c))"
  using assms by (simp add: signed_divide_int_def sgn_if)

lemma sdiv_mono_pos:
  fixes a b c :: int
  assumes ab: "a \<le> b" and c: "0 < c"
  shows "a sdiv c \<le> b sdiv c"
proof (cases "0 \<le> a")
  case True
  then have "0 \<le> b" using ab by simp
  with True show ?thesis
    using zdiv_mono1 [OF ab c] by (simp add: sdiv_pos_cases [OF c])
next
  case False
  then have a: "a < 0" by simp
  have na: "0 \<le> (- a) div c"
    using a c by (simp add: pos_imp_zdiv_nonneg_iff)
  show ?thesis
  proof (cases "0 \<le> b")
    case True
    then have "0 \<le> b div c" using c by (simp add: pos_imp_zdiv_nonneg_iff)
    with na a True show ?thesis by (simp add: sdiv_pos_cases [OF c])
  next
    case False
    have "(- b) div c \<le> (- a) div c"
      using ab c by (intro zdiv_mono1) auto
    with a False show ?thesis by (simp add: sdiv_pos_cases [OF c])
  qed
qed

lemma map_x_exact: "map_x s l = word_of_int (exact_coord (ui_w s) (x_axis_info s) l)"
  by (simp add: map_x_def exact_coord_def x_axis_info_def rescale_eq split: option.split)

lemma map_y_exact: "map_y s l = word_of_int (exact_coord (ui_h s) (y_axis_info s) l)"
  by (simp add: map_y_def exact_coord_def y_axis_info_def rescale_eq split: option.split)

lemma sint_of_fits: "fits_int v \<Longrightarrow> sint (word_of_int v :: 32 word) = v"
  by (simp add: fits_int_def sint_sbintrunc' signed_take_bit_int_eq_self)

lemma exact_coord_mono:
  assumes ui: "0 \<le> sint ui"
    and rng: "\<And>a. ax = Some a \<Longrightarrow> sint (minimum a) \<le> sint (maximum a)"
    and lt: "sint l1 < sint l2"
  shows "exact_coord ui ax l1 \<le> exact_coord ui ax l2"
proof (cases "ui = 0")
  case True
  with lt show ?thesis by (simp add: exact_coord_def)
next
  case False
  then have "sint ui \<noteq> 0" by (metis sint_0 signed_word_eqI)
  with ui have pos: "0 < sint ui" by simp
  show ?thesis
  proof (cases ax)
    case None
    with lt show ?thesis by (simp add: exact_coord_def)
  next
    case (Some a)
    have "0 \<le> sint (maximum a) - sint (minimum a)" using rng [OF Some] by simp
    then have "sint l1 * (sint (maximum a) - sint (minimum a))
        \<le> sint l2 * (sint (maximum a) - sint (minimum a))"
      using lt by (intro mult_right_mono) auto
    from sdiv_mono_pos [OF this pos] Some False show ?thesis
      by (simp add: exact_coord_def)
  qed
qed


subsection \<open>Claims on the coordinate mapper\<close>

text \<open>
  Claim C1, as amended.  For each axis: when the configured UI dimension is zero the
  mapper returns the logical coordinate unchanged; otherwise it queries the multi-touch
  position axis and, if that fails, the single-touch position axis; when both queries
  fail it returns the coordinate unchanged; with the axis information it returns
  \<open>l * (max - min) / ui + min\<close> with truncating division whenever that value lies in the
  range of \<open>int\<close>, and in every case the low 32 bits of that value, which is what the
  conversion to the \<open>int\<close> result keeps.
\<close>

theorem coordinate_mapper_formula:
  "(ui_w s = 0 \<longrightarrow> map_x s lx = lx)
   \<and> (ui_w s \<noteq> 0 \<and> absinfo s ABS_MT_POSITION_X = None \<and> absinfo s ABS_X = None \<longrightarrow> map_x s lx = lx)
   \<and> (ui_w s \<noteq> 0
        \<and> (absinfo s ABS_MT_POSITION_X = Some ax
             \<or> absinfo s ABS_MT_POSITION_X = None \<and> absinfo s ABS_X = Some ax) \<longrightarrow>
          map_x s lx = word_of_int (sint lx * (sint (maximum ax) - sint (minimum ax)) sdiv sint (ui_w s)
                                     + sint (minimum ax))
        \<and> (fits_int (sint lx * (sint (maximum ax) - sint (minimum ax)) sdiv sint (ui_w s)
                        + sint (minimum ax)) \<longrightarrow>
             sint (map_x s lx) = sint lx * (sint (maximum ax) - sint (minimum ax)) sdiv sint (ui_w s)
                                   + sint (minimum ax)))
   \<and> (ui_h s = 0 \<longrightarrow> map_y s ly = ly)
   \<and> (ui_h s \<noteq> 0 \<and> absinfo s ABS_MT_POSITION_Y = None \<and> absinfo s ABS_Y = None \<longrightarrow> map_y s ly = ly)
   \<and> (ui_h s \<noteq> 0
        \<and> (absinfo s ABS_MT_POSITION_Y = Some ay
             \<or> absinfo s ABS_MT_POSITION_Y = None \<and> absinfo s ABS_Y = Some ay) \<longrightarrow>
          map_y s ly = word_of_int (sint ly * (sint (maximum ay) - sint (minimum ay)) sdiv sint (ui_h s)
                                     + sint (minimum ay))
        \<and> (fits_int (sint ly * (sint (maximum ay) - sint (minimum ay)) sdiv sint (ui_h s)
                        + sint (minimum ay)) \<longrightarrow>
             sint (map_y s ly) = sint ly * (sint (maximum ay) - sint (minimum ay)) sdiv sint (ui_h s)
                                   + sint (minimum ay)))"
proof -
  have ex: "sint (rescale l a u) = sint l * (sint (maximum a) - sint (minimum a)) sdiv sint u
        + sint (minimum a)"
    if "fits_int (sint l * (sint (maximum a) - sint (minimum a)) sdiv sint u + sint (minimum a))"
    for l a u
    unfolding rescale_eq using that by (rule sint_of_fits)
  have mx: "map_x s lx = rescale lx ax (ui_w s)"
    if "ui_w s \<noteq> 0" "absinfo s ABS_MT_POSITION_X = Some ax
             \<or> absinfo s ABS_MT_POSITION_X = None \<and> absinfo s ABS_X = Some ax"
    using that by (auto simp: map_x_def read_absinfo_def)
  have my: "map_y s ly = rescale ly ay (ui_h s)"
    if "ui_h s \<noteq> 0" "absinfo s ABS_MT_POSITION_Y = Some ay
             \<or> absinfo s ABS_MT_POSITION_Y = None \<and> absinfo s ABS_Y = Some ay"
    using that by (auto simp: map_y_def read_absinfo_def)
  have idx: "map_x s lx = lx"
    if "ui_w s = 0 \<or> absinfo s ABS_MT_POSITION_X = None \<and> absinfo s ABS_X = None"
    using that by (auto simp: map_x_def read_absinfo_def)
  have idy: "map_y s ly = ly"
    if "ui_h s = 0 \<or> absinfo s ABS_MT_POSITION_Y = None \<and> absinfo s ABS_Y = None"
    using that by (auto simp: map_y_def read_absinfo_def)
  show ?thesis
    using idx idy mx my ex [of lx ax "ui_w s"] ex [of ly ay "ui_h s"]
      rescale_eq [of lx ax "ui_w s"] rescale_eq [of ly ay "ui_h s"]
    by metis
qed

theorem coordinate_mapper_formula_witness:
  "map_x (init_sys 0 0 0 (abs_range 0 4095) all_ok) 400 = 400
   \<and> fits_int 2047 \<and> sint (map_x (init_sys 0 800 480 (abs_range 0 4095) all_ok) 400) = 2047
   \<and> fits_int (- 15) \<and> sint (map_x (init_sys 0 800 480 (abs_range 0 4095) all_ok) (- 3)) = - 15
   \<and> fits_int 510 \<and> sint (map_y (init_sys 0 800 480 (abs_st_only 10 1010) all_ok) 240) = 510
   \<and> map_y (init_sys 0 800 480 no_abs all_ok) 240 = 240"
  using coordinate_mapper_formula [of "init_sys 0 0 0 (abs_range 0 4095) all_ok" 400 _ 0 _]
    coordinate_mapper_formula [of "init_sys 0 800 480 (abs_range 0 4095) all_ok" 400
      "\<lparr>minimum = 0, maximum = 4095\<rparr>" 0 "\<lparr>minimum = 0, maximum = 4095\<rparr>"]
    coordinate_mapper_formula [of "init_sys 0 800 480 (abs_range 0 4095) all_ok" "- 3"
      "\<lparr>minimum = 0, maximum = 4095\<rparr>" 0 "\<lparr>minimum = 0, maximum = 4095\<rparr>"]
    coordinate_mapper_formula [of "init_sys 0 800 480 (abs_st_only 10 1010) all_ok" 0
      "\<lparr>minimum = 10, maximum = 1010\<rparr>" 240 "\<lparr>minimum = 10, maximum = 1010\<rparr>"]
    coordinate_mapper_formula [of "init_sys 0 800 480 no_abs all_ok" 0 _ 240 _]
  by (simp add: init_sys_def abs_range_def abs_st_only_def no_abs_def input_codes
      signed_divide_int_def fits_int_def)

text \<open>
  Claim C1 as stated fails where the value does not fit an \<open>int\<close>: with \<open>--map 800 480\<close>,
  axis range 0..4095 and logical coordinate 2147483647 the value of the formula is
  10992431918, and \<open>map_x\<close> returns -1892469970.
\<close>

theorem coordinate_mapper_formula_counterexample:
  "ui_w (init_sys 0 800 480 (abs_range 0 4095) all_ok) = 800
   \<and> absinfo (init_sys 0 800 480 (abs_range 0 4095) all_ok) ABS_MT_POSITION_X
       = Some \<lparr>minimum = 0, maximum = 4095\<rparr>
   \<and> sint (2147483647 :: 32 word) * (sint (4095 :: 32 word) - sint (0 :: 32 word))
         sdiv sint (800 :: 32 word) + sint (0 :: 32 word) = 10992431918
   \<and> sint (map_x (init_sys 0 800 480 (abs_range 0 4095) all_ok) 2147483647) = - 1892469970
   \<and> sint (map_x (init_sys 0 800 480 (abs_range 0 4095) all_ok) 2147483647)
       \<noteq> sint (2147483647 :: 32 word) * (sint (4095 :: 32 word) - sint (0 :: 32 word))
            sdiv sint (800 :: 32 word) + sint (0 :: 32 word)"
  by (simp add: map_x_exact init_sys_def abs_range_def x_axis_info_def read_absinfo_def
      exact_coord_def input_codes signed_divide_int_def)

text \<open>
  Claim C7, as amended.  The mapper is monotone, \<open>x1 < x2\<close> implies
  \<open>map x1 \<le> map x2\<close>, when the configured UI dimension is not negative, the axis range
  it uses has \<open>min \<le> max\<close>, and the rescaled values of both coordinates lie in the range
  of \<open>int\<close>.  The same holds for \<open>map_y\<close>.
\<close>

theorem coordinate_mapper_monotone:
  "(0 \<le> sint (ui_w s)
      \<and> (\<forall>ax. x_axis_info s = Some ax \<longrightarrow> sint (minimum ax) \<le> sint (maximum ax))
      \<and> fits_int (exact_coord (ui_w s) (x_axis_info s) x1)
      \<and> fits_int (exact_coord (ui_w s) (x_axis_info s) x2)
      \<and> sint x1 < sint x2
    \<longrightarrow> sint (map_x s x1) \<le> sint (map_x s x2))
   \<and> (0 \<le> sint (ui_h s)
      \<and> (\<forall>ay. y_axis_info s = Some ay \<longrightarrow> sint (minimum ay) \<le> sint (maximum ay))
      \<and> fits_int (exact_coord (ui_h s) (y_axis_info s) y1)
      \<and> fits_int (exact_coord (ui_h s) (y_axis_info s) y2)
      \<and> sint y1 < sint y2
    \<longrightarrow> sint (map_y s y1) \<le> sint (map_y s y2))"
  using exact_coord_mono [of "ui_w s" "x_axis_info s" x1 x2]
    exact_coord_mono [of "ui_h s" "y_axis_info s" y1 y2]
  by (simp add: map_x_exact map_y_exact sint_of_fits)

theorem coordinate_mapper_monotone_witness:
  "sint (map_x (init_sys 0 800 480 (abs_range 0 4095) all_ok) 399)
     \<le> sint (map_x (init_sys 0 800 480 (abs_range 0 4095) all_ok) 400)
   \<and> sint (map_y (init_sys 0 800 480 (abs_range 0 4095) all_ok) (- 7))
     \<le> sint (map_y (init_sys 0 800 480 (abs_range 0 4095) all_ok) 480)"
  using coordinate_mapper_monotone [of "init_sys 0 800 480 (abs_range 0 4095) all_ok" 399 400 "- 7" 480]
  by (simp add: init_sys_def abs_range_def x_axis_info_def y_axis_info_def read_absinfo_def
      exact_coord_def fits_int_def input_codes signed_divide_int_def)

text \<open>
  Claim C7 as stated fails in three ways, each with \<open>x1 < x2\<close> and \<open>map x1 > map x2\<close>:
  a negative UI dimension (\<open>--map -800 480\<close>, axis range 0..4095, coordinates 0 and 800);
  an axis whose minimum exceeds its maximum (4095..0, UI width 800, coordinates 0 and
  800); and a rescaled value beyond the range of \<open>int\<close> (UI width 800, axis range
  0..4095, coordinates 0 and 2147483647).
\<close>

theorem coordinate_mapper_monotone_counterexample:
  "sint (0 :: 32 word) < sint (800 :: 32 word)
   \<and> sint (map_x (init_sys 0 (- 800) 480 (abs_range 0 4095) all_ok) 0) = 0
   \<and> sint (map_x (init_sys 0 (- 800) 480 (abs_range 0 4095) all_ok) 800) = - 4095
   \<and> \<not> sint (map_x (init_sys 0 (- 800) 480 (abs_range 0 4095) all_ok) 0)
        \<le> sint (map_x (init_sys 0 (- 800) 480 (abs_range 0 4095) all_ok) 800)
   \<and> sint (map_x (init_sys 0 800 480 (abs_range 4095 0) all_ok) 0) = 4095
   \<and> sint (map_x (init_sys 0 800 480 (abs_range 4095 0) all_ok) 800) = 0
   \<and> \<not> sint (map_x (init_sys 0 800 480 (abs_range 4095 0) all_ok) 0)
        \<le> sint (map_x (init_sys 0 800 480 (abs_range 4095 0) all_ok) 800)
   \<and> sint (0 :: 32 word) < sint (2147483647 :: 32 word)
   \<and> sint (map_x (init_sys 0 800 480 (abs_range 0 4095) all_ok) 0) = 0
   \<and> sint (map_x (init_sys 0 800 480 (abs_range 0 4095) all_ok) 2147483647) = - 1892469970
   \<and> \<not> sint (map_x (init_sys 0 800 480 (abs_range 0 4095) all_ok) 0)
        \<le> sint (map_x (init_sys 0 800 480 (abs_range 0 4095) all_ok) 2147483647)"
  by (simp add: map_x_exact init_sys_def abs_range_def x_axis_info_def read_absinfo_def
      exact_coord_def input_codes signed_divide_int_def)


subsection \<open>Traces of the single-touch gestures\<close>

lemma map_frame:
  "ui_w s' = ui_w s \<Longrightarrow> absinfo s' = absinfo s \<Longrightarrow> map_x s' l = map_x s l"
  "ui_h s' = ui_h s \<Longrightarrow> absinfo s' = absinfo s \<Longrightarrow> map_y s' l = map_y s l"
  by (simp_all add: map_x_def map_y_def read_absinfo_def split: option.split)

lemma map_chain [simp]:
  "map_x (snd (chain es s)) l = map_x s l" "map_y (snd (chain es s)) l = map_y s l"
  by (rule map_frame; simp add: chain_frame)+

lemma msleep_eq: "msleep ms s = s\<lparr>trace := trace s @ sleep_actions ms\<rparr>"
  by (simp add: msleep_def sleep_actions_def)

lemma do_tap_chain:
  "do_tap lx ly hold_ms s =
     (case chain (contact_events (map_x s lx) (map_y s ly)) s of
        (RS_ERR, s1) \<Rightarrow> (RS_ERR, s1)
      | (RS_OK, s1) \<Rightarrow> chain release_events (msleep hold_ms s1))"
  by (simp add: do_tap_def Let_def write_event_wev syn_wev first_err_chain
      contact_events_def release_events_def split: prod.split rs.split)

lemma length_contact_events [simp]: "length (contact_events x y) = 6"
  by (simp add: contact_events_def)

lemma length_release_events [simp]: "length release_events = 4"
  by (simp add: release_events_def)

lemma do_tap_ok_trace:
  assumes "fst (do_tap lx ly hold_ms s) = RS_OK"
  shows "snd (do_tap lx ly hold_ms s) =
           s\<lparr>wr_count := wr_count s + 10, trace := trace s @ tap_actions s lx ly hold_ms\<rparr>"
proof -
  define s1 where "s1 = snd (chain (contact_events (map_x s lx) (map_y s ly)) s)"
  from assms have ok1: "fst (chain (contact_events (map_x s lx) (map_y s ly)) s) = RS_OK"
    by (simp add: do_tap_chain split: prod.splits rs.splits)
  then have tap: "do_tap lx ly hold_ms s = chain release_events (msleep hold_ms s1)"
    by (auto simp: do_tap_chain s1_def split: prod.splits rs.splits)
  with assms have ok2: "fst (chain release_events (msleep hold_ms s1)) = RS_OK"
    by simp
  have s1: "s1 = s\<lparr>wr_count := wr_count s + 6,
      trace := trace s @ map Emit (contact_events (map_x s lx) (map_y s ly))\<rparr>"
    using chain_ok_trace [OF ok1] by (simp add: s1_def)
  have "snd (do_tap lx ly hold_ms s) =
      (msleep hold_ms s1)\<lparr>wr_count := wr_count (msleep hold_ms s1) + 4,
         trace := trace (msleep hold_ms s1) @ map Emit release_events\<rparr>"
    using chain_ok_trace [OF ok2] by (simp add: tap)
  then show ?thesis
    by (simp add: s1 msleep_eq tap_actions_def)
qed


declare swipe_loop.simps [simp del]

lemma length_frame_events [simp]: "length (frame_events s x1 y1 x2 y2 steps i) = 3"
  by (simp add: frame_events_def)

text \<open>One round of the loop of \<open>do_swipe\<close>.\<close>

lemma swipe_loop_step:
  "swipe_loop i x1 y1 x2 y2 d steps s =
     (if i \<le> sint steps then
        (if fst (chain (frame_events s x1 y1 x2 y2 steps i) s) = RS_OK
         then swipe_loop (i + 1) x1 y1 x2 y2 d steps
                (msleep (word_of_int (sint d sdiv sint steps))
                   (snd (chain (frame_events s x1 y1 x2 y2 steps i) s)))
         else (RS_ERR, snd (chain (frame_events s x1 y1 x2 y2 steps i) s)))
      else (RS_OK, s))"
  by (subst swipe_loop.simps)
    (auto simp: Let_def write_event_wev syn_wev first_err_chain frame_events_def
       split: prod.split rs.split)

lemma swipe_frame_cong:
  "ui_w s' = ui_w s \<Longrightarrow> ui_h s' = ui_h s \<Longrightarrow> absinfo s' = absinfo s \<Longrightarrow>
     swipe_frame s' x1 y1 x2 y2 d steps i = swipe_frame s x1 y1 x2 y2 d steps i"
  by (simp add: swipe_frame_def frame_events_def map_frame [of s' s])

lemma swipe_loop_ok_trace:
  "fst (swipe_loop i x1 y1 x2 y2 d steps s) = RS_OK \<Longrightarrow>
     snd (swipe_loop i x1 y1 x2 y2 d steps s) =
       s\<lparr>wr_count := wr_count s + 3 * nat (sint steps + 1 - i),
          trace := trace s @ concat (map (swipe_frame s x1 y1 x2 y2 d steps) [i..sint steps])\<rparr>"
proof (induction "nat (sint steps + 1 - i)" arbitrary: i s)
  case 0
  then have "\<not> i \<le> sint steps" by simp
  then show ?case by (simp add: swipe_loop_step [of i])
next
  case (Suc n)
  then have le: "i \<le> sint steps" by simp
  define es where "es = frame_events s x1 y1 x2 y2 steps i"
  define s2 where "s2 = msleep (word_of_int (sint d sdiv sint steps)) (snd (chain es s))"
  from Suc.prems le have ok1: "fst (chain es s) = RS_OK"
    by (subst (asm) swipe_loop_step) (simp add: es_def split: if_splits)
  then have step: "swipe_loop i x1 y1 x2 y2 d steps s = swipe_loop (i + 1) x1 y1 x2 y2 d steps s2"
    using le by (subst swipe_loop_step) (simp add: es_def s2_def)
  have s2: "s2 = s\<lparr>wr_count := wr_count s + 3,
      trace := trace s @ swipe_frame s x1 y1 x2 y2 d steps i\<rparr>"
    using chain_ok_trace [OF ok1] by (simp add: s2_def msleep_eq swipe_frame_def es_def)
  have n: "n = nat (sint steps + 1 - (i + 1))" using Suc.hyps(2) by simp
  from Suc.prems step have ok2: "fst (swipe_loop (i + 1) x1 y1 x2 y2 d steps s2) = RS_OK"
    by simp
  have fr: "swipe_frame s2 x1 y1 x2 y2 d steps = swipe_frame s x1 y1 x2 y2 d steps"
    by (rule ext, rule swipe_frame_cong) (simp_all add: s2)
  have up: "[i..sint steps] = i # [i + 1..sint steps]"
    using le by (simp add: upto_rec1)
  have cnt: "nat (sint steps + 1 - i) = Suc (nat (sint steps + 1 - (i + 1)))"
    using le by simp
  show ?case
    unfolding step Suc.hyps(1) [OF n ok2] fr up cnt
    by (simp add: s2)
qed

lemma length_lift_events [simp]: "length lift_events = 2"
  by (simp add: lift_events_def)

lemma do_swipe_chain:
  "do_swipe x1 y1 x2 y2 d st s =
     (case do_tap x1 y1 0 s of
        (RS_ERR, s1) \<Rightarrow> (RS_ERR, s1)
      | (RS_OK, s1) \<Rightarrow>
          (case swipe_loop 1 x1 y1 x2 y2 d (swipe_steps st) s1 of
             (RS_ERR, s2) \<Rightarrow> (RS_ERR, s2)
           | (RS_OK, s2) \<Rightarrow> chain lift_events s2))"
  by (simp add: do_swipe_def Let_def swipe_steps_def write_event_wev syn_wev first_err_chain
      lift_events_def split: prod.split rs.split)

lemma do_swipe_ok_trace:
  assumes "fst (do_swipe x1 y1 x2 y2 d st s) = RS_OK"
  shows "snd (do_swipe x1 y1 x2 y2 d st s) =
      s\<lparr>wr_count := wr_count s + 10 + 3 * nat (sint (swipe_steps st)) + 2,
         trace := trace s @ tap_actions s x1 y1 0
           @ concat (map (swipe_frame s x1 y1 x2 y2 d (swipe_steps st)) [1..sint (swipe_steps st)])
           @ map Emit lift_events\<rparr>"
proof -
  define s1 where "s1 = snd (do_tap x1 y1 0 s)"
  define s2 where "s2 = snd (swipe_loop 1 x1 y1 x2 y2 d (swipe_steps st) s1)"
  from assms have ok1: "fst (do_tap x1 y1 0 s) = RS_OK"
    by (simp add: do_swipe_chain split: prod.splits rs.splits)
  with assms have ok2: "fst (swipe_loop 1 x1 y1 x2 y2 d (swipe_steps st) s1) = RS_OK"
    by (simp add: do_swipe_chain s1_def split: prod.splits rs.splits)
  from ok1 ok2 have sw: "do_swipe x1 y1 x2 y2 d st s = chain lift_events s2"
    by (auto simp: do_swipe_chain s1_def s2_def split: prod.splits rs.splits)
  with assms have ok3: "fst (chain lift_events s2) = RS_OK" by simp
  have s1: "s1 = s\<lparr>wr_count := wr_count s + 10, trace := trace s @ tap_actions s x1 y1 0\<rparr>"
    using do_tap_ok_trace [OF ok1] by (simp add: s1_def)
  have fr: "swipe_frame s1 x1 y1 x2 y2 d (swipe_steps st) = swipe_frame s x1 y1 x2 y2 d (swipe_steps st)"
    by (rule ext, rule swipe_frame_cong) (simp_all add: s1)
  have s2: "s2 = s\<lparr>wr_count := wr_count s + 10 + 3 * nat (sint (swipe_steps st)),
      trace := trace s @ tap_actions s x1 y1 0
        @ concat (map (swipe_frame s x1 y1 x2 y2 d (swipe_steps st)) [1..sint (swipe_steps st)])\<rparr>"
    using swipe_loop_ok_trace [OF ok2] by (simp add: s2_def fr) (simp add: s1)
  show ?thesis
    using chain_ok_trace [OF ok3] by (simp add: sw) (simp add: s2)
qed

lemma syn_reports_append [simp]: "syn_reports (a @ b) = syn_reports a + syn_reports b"
  by (simp add: syn_reports_def)

lemma syn_reports_Nil [simp]: "syn_reports [] = 0"
  by (simp add: syn_reports_def)

lemma syn_reports_Cons [simp]:
  "syn_reports (a # as) = (if is_syn_report a then 1 else 0) + syn_reports as"
  by (simp add: syn_reports_def)

lemma syn_reports_sleep [simp]: "syn_reports (sleep_actions ms) = 0"
  by (simp add: sleep_actions_def is_syn_report_def)

lemma syn_reports_tap [simp]: "syn_reports (tap_actions s lx ly h) = 2"
  by (simp add: tap_actions_def contact_events_def release_events_def is_syn_report_def
      input_codes)

lemma syn_reports_frame [simp]: "syn_reports (swipe_frame s x1 y1 x2 y2 d steps i) = 1"
  by (simp add: swipe_frame_def frame_events_def is_syn_report_def input_codes)

lemma syn_reports_lift [simp]: "syn_reports (map Emit lift_events) = 1"
  by (simp add: lift_events_def is_syn_report_def input_codes)

lemma syn_reports_frames:
  "syn_reports (concat (map (swipe_frame s x1 y1 x2 y2 d steps) [i..j])) = nat (j + 1 - i)"
proof (induction "nat (j + 1 - i)" arbitrary: i)
  case 0
  then show ?case by simp
next
  case (Suc n)
  then have le: "i \<le> j" by simp
  then have up: "[i..j] = i # [i + 1..j]" by (simp add: upto_rec1)
  from Suc.hyps(2) have "n = nat (j + 1 - (i + 1))" by simp
  from Suc.hyps(1) [OF this] le show ?case by (simp add: up)
qed

lemma all_ok_chain: "(\<forall>k. wr_ok s k) \<Longrightarrow> fst (chain es s) = RS_OK"
  by (simp add: chain_ok_iff)

lemma do_tap_all_ok:
  assumes "\<forall>k. wr_ok s k"
  shows "fst (do_tap lx ly h s) = RS_OK"
proof -
  have 1: "fst (chain (contact_events (map_x s lx) (map_y s ly)) s) = RS_OK"
    using assms by (rule all_ok_chain)
  have "\<forall>k. wr_ok (msleep h (snd (chain (contact_events (map_x s lx) (map_y s ly)) s))) k"
    using assms by (simp add: msleep_eq chain_frame)
  then have "fst (chain release_events
      (msleep h (snd (chain (contact_events (map_x s lx) (map_y s ly)) s)))) = RS_OK"
    by (rule all_ok_chain)
  with 1 show ?thesis
    by (auto simp: do_tap_chain split: prod.splits rs.splits)
qed

lemma swipe_loop_all_ok:
  "(\<forall>k. wr_ok s k) \<Longrightarrow> fst (swipe_loop i x1 y1 x2 y2 d steps s) = RS_OK"
proof (induction "nat (sint steps + 1 - i)" arbitrary: i s)
  case 0
  then show ?case by (simp add: swipe_loop_step [of i])
next
  case (Suc n)
  then have le: "i \<le> sint steps" by simp
  define es where "es = frame_events s x1 y1 x2 y2 steps i"
  define s2 where "s2 = msleep (word_of_int (sint d sdiv sint steps)) (snd (chain es s))"
  have ok1: "fst (chain es s) = RS_OK" using Suc.prems by (rule all_ok_chain)
  then have step: "swipe_loop i x1 y1 x2 y2 d steps s = swipe_loop (i + 1) x1 y1 x2 y2 d steps s2"
    using le by (subst swipe_loop_step) (simp add: es_def s2_def)
  have ok: "\<forall>k. wr_ok s2 k" using Suc.prems by (simp add: s2_def msleep_eq chain_frame)
  have n: "n = nat (sint steps + 1 - (i + 1))" using Suc.hyps(2) by simp
  show ?case unfolding step by (rule Suc.hyps(1) [OF n ok])
qed

lemma do_tap_frame:
  "ui_w (snd (do_tap lx ly h s)) = ui_w s \<and> ui_h (snd (do_tap lx ly h s)) = ui_h s
   \<and> slot_tracking (snd (do_tap lx ly h s)) = slot_tracking s
   \<and> next_tracking_id (snd (do_tap lx ly h s)) = next_tracking_id s
   \<and> active_touches (snd (do_tap lx ly h s)) = active_touches s
   \<and> absinfo (snd (do_tap lx ly h s)) = absinfo s \<and> wr_ok (snd (do_tap lx ly h s)) = wr_ok s"
  by (cases "chain (contact_events (map_x s lx) (map_y s ly)) s")
    (use chain_frame [of "contact_events (map_x s lx) (map_y s ly)" s] in
      \<open>auto simp: do_tap_chain chain_frame msleep_eq split: rs.splits\<close>)

lemma swipe_loop_frame:
  "wr_ok (snd (swipe_loop i x1 y1 x2 y2 d steps s)) = wr_ok s"
proof (induction "nat (sint steps + 1 - i)" arbitrary: i s)
  case 0
  then show ?case by (simp add: swipe_loop_step [of i])
next
  case (Suc n)
  then have le: "i \<le> sint steps" by simp
  have n: "n = nat (sint steps + 1 - (i + 1))" using Suc.hyps(2) by simp
  show ?case
    using le by (subst swipe_loop_step) (simp add: Suc.hyps(1) [OF n] msleep_eq chain_frame)
qed

lemma do_swipe_all_ok:
  assumes "\<forall>k. wr_ok s k"
  shows "fst (do_swipe x1 y1 x2 y2 d st s) = RS_OK"
proof -
  define s1 where "s1 = snd (do_tap x1 y1 0 s)"
  define s2 where "s2 = snd (swipe_loop 1 x1 y1 x2 y2 d (swipe_steps st) s1)"
  have ok1: "fst (do_tap x1 y1 0 s) = RS_OK" using assms by (rule do_tap_all_ok)
  have w1: "\<forall>k. wr_ok s1 k" using assms by (simp add: s1_def do_tap_frame)
  then have ok2: "fst (swipe_loop 1 x1 y1 x2 y2 d (swipe_steps st) s1) = RS_OK"
    by (rule swipe_loop_all_ok)
  have "\<forall>k. wr_ok s2 k" using w1 by (simp add: s2_def swipe_loop_frame)
  then have ok3: "fst (chain lift_events s2) = RS_OK" by (rule all_ok_chain)
  from ok1 ok2 ok3 show ?thesis
    by (auto simp: do_swipe_chain s1_def s2_def split: prod.splits rs.splits)
qed

lemma st_only_sleep: "\<forall>a \<in> set (sleep_actions ms). st_only a"
  by (simp add: sleep_actions_def st_only_def is_mt_position_def is_syn_mt_report_def)

lemma st_only_frame_events: "\<forall>e \<in> set (frame_events s x1 y1 x2 y2 steps i). st_only (Emit e)"
  by (simp add: frame_events_def st_only_def is_mt_position_def is_syn_mt_report_def input_codes)

lemma st_only_lift_events: "\<forall>e \<in> set lift_events. st_only (Emit e)"
  by (simp add: lift_events_def st_only_def is_mt_position_def is_syn_mt_report_def input_codes)

lemma chain_st_only:
  assumes "\<forall>e \<in> set es. st_only (Emit e)"
  shows "\<exists>mv. trace (snd (chain es s)) = trace s @ mv \<and> (\<forall>a \<in> set mv. st_only a)"
proof -
  obtain j where "trace (snd (chain es s)) = trace s @ map Emit (take j es)"
    using chain_prefix [of es s] by blast
  moreover have "\<forall>a \<in> set (map Emit (take j es)). st_only a"
    using assms by (auto dest: in_set_takeD)
  ultimately show ?thesis by blast
qed

lemma swipe_loop_st_only:
  "\<exists>mv. trace (snd (swipe_loop i x1 y1 x2 y2 d steps s)) = trace s @ mv \<and> (\<forall>a \<in> set mv. st_only a)"
proof (induction "nat (sint steps + 1 - i)" arbitrary: i s)
  case 0
  then show ?case by (simp add: swipe_loop_step [of i])
next
  case (Suc n)
  then have le: "i \<le> sint steps" by simp
  define es where "es = frame_events s x1 y1 x2 y2 steps i"
  define s2 where "s2 = msleep (word_of_int (sint d sdiv sint steps)) (snd (chain es s))"
  obtain m1 where m1: "trace (snd (chain es s)) = trace s @ m1" "\<forall>a \<in> set m1. st_only a"
    using chain_st_only [of es s] st_only_frame_events [of s x1 y1 x2 y2 steps i]
    by (auto simp: es_def)
  show ?case
  proof (cases "fst (chain es s) = RS_OK")
    case True
    have n: "n = nat (sint steps + 1 - (i + 1))" using Suc.hyps(2) by simp
    from Suc.hyps(1) [OF n, of s2] obtain m2 where
      m2: "trace (snd (swipe_loop (i + 1) x1 y1 x2 y2 d steps s2)) = trace s2 @ m2"
        "\<forall>a \<in> set m2. st_only a" by blast
    have "trace s2 = trace s @ m1 @ sleep_actions (word_of_int (sint d sdiv sint steps))"
      by (simp add: s2_def msleep_eq m1)
    with m2 have "trace (snd (swipe_loop (i + 1) x1 y1 x2 y2 d steps s2))
        = trace s @ (m1 @ sleep_actions (word_of_int (sint d sdiv sint steps)) @ m2)"
      by simp
    moreover have "\<forall>a \<in> set (m1 @ sleep_actions (word_of_int (sint d sdiv sint steps)) @ m2). st_only a"
      using m1(2) m2(2) st_only_sleep by auto
    moreover have "swipe_loop i x1 y1 x2 y2 d steps s = swipe_loop (i + 1) x1 y1 x2 y2 d steps s2"
      using le True by (subst swipe_loop_step) (simp add: es_def s2_def)
    ultimately show ?thesis by metis
  next
    case False
    then have "swipe_loop i x1 y1 x2 y2 d steps s = (RS_ERR, snd (chain es s))"
      using le by (subst swipe_loop_step) (simp add: es_def)
    with m1 show ?thesis by auto
  qed
qed

lemma do_swipe_st_only:
  "\<exists>mv. trace (snd (do_swipe x1 y1 x2 y2 d st s)) = trace (snd (do_tap x1 y1 0 s)) @ mv
        \<and> (\<forall>a \<in> set mv. st_only a)"
proof (cases "fst (do_tap x1 y1 0 s) = RS_OK")
  case False
  then have "do_swipe x1 y1 x2 y2 d st s = do_tap x1 y1 0 s"
    by (cases "do_tap x1 y1 0 s") (auto simp: do_swipe_chain split: rs.splits)
  then show ?thesis by simp
next
  case True
  define s1 where "s1 = snd (do_tap x1 y1 0 s)"
  define s2 where "s2 = snd (swipe_loop 1 x1 y1 x2 y2 d (swipe_steps st) s1)"
  obtain m1 where m1: "trace s2 = trace s1 @ m1" "\<forall>a \<in> set m1. st_only a"
    using swipe_loop_st_only [of 1 x1 y1 x2 y2 d "swipe_steps st" s1] by (auto simp: s2_def)
  show ?thesis
  proof (cases "fst (swipe_loop 1 x1 y1 x2 y2 d (swipe_steps st) s1) = RS_OK")
    case False
    with True have "do_swipe x1 y1 x2 y2 d st s = (RS_ERR, s2)"
      by (cases "do_tap x1 y1 0 s"; cases "swipe_loop 1 x1 y1 x2 y2 d (swipe_steps st) s1")
        (auto simp: do_swipe_chain s1_def s2_def split: rs.splits)
    with m1 show ?thesis by (auto simp: s1_def)
  next
    case ok2: True
    with True have sw: "do_swipe x1 y1 x2 y2 d st s = chain lift_events s2"
      by (cases "do_tap x1 y1 0 s"; cases "swipe_loop 1 x1 y1 x2 y2 d (swipe_steps st) s1")
        (auto simp: do_swipe_chain s1_def s2_def split: rs.splits)
    obtain m2 where m2: "trace (snd (chain lift_events s2)) = trace s2 @ m2" "\<forall>a \<in> set m2. st_only a"
      using chain_st_only [OF st_only_lift_events, of s2] by blast
    have "trace (snd (do_swipe x1 y1 x2 y2 d st s)) = trace s1 @ (m1 @ m2)"
      by (simp add: sw m2 m1)
    moreover have "\<forall>a \<in> set (m1 @ m2). st_only a" using m1(2) m2(2) by auto
    ultimately show ?thesis unfolding s1_def by blast
  qed
qed

subsection \<open>Claims on the single-touch gestures\<close>

text \<open>
  Claim C8.  For every \<open>x\<close>, \<open>y\<close> and \<open>hold_ms\<close>, and from every state of program and
  device, \<open>longpress\<close> returns the same result as \<open>tap\<close> and leaves the same trace of
  emissions and sleeps (indeed the same state).
\<close>

theorem longpress_is_tap:
  "fst (do_longpress lx ly hold_ms s) = fst (do_tap lx ly hold_ms s)
   \<and> trace (snd (do_longpress lx ly hold_ms s)) = trace (snd (do_tap lx ly hold_ms s))
   \<and> do_longpress lx ly hold_ms s = do_tap lx ly hold_ms s"
  by (simp add: do_longpress_def)

lemma swipe_points_20:
  "lerp 100 400 (swipe_t 1 20) = 115 \<and> lerp 100 300 (swipe_t 1 20) = 110
   \<and> lerp 100 400 (swipe_t 2 20) = 130 \<and> lerp 100 300 (swipe_t 2 20) = 120
   \<and> lerp 100 400 (swipe_t 3 20) = 145 \<and> lerp 100 300 (swipe_t 3 20) = 130
   \<and> lerp 100 400 (swipe_t 4 20) = 160 \<and> lerp 100 300 (swipe_t 4 20) = 140
   \<and> lerp 100 400 (swipe_t 5 20) = 175 \<and> lerp 100 300 (swipe_t 5 20) = 150
   \<and> lerp 100 400 (swipe_t 6 20) = 190 \<and> lerp 100 300 (swipe_t 6 20) = 160
   \<and> lerp 100 400 (swipe_t 7 20) = 205 \<and> lerp 100 300 (swipe_t 7 20) = 170
   \<and> lerp 100 400 (swipe_t 8 20) = 220 \<and> lerp 100 300 (swipe_t 8 20) = 180
   \<and> lerp 100 400 (swipe_t 9 20) = 235 \<and> lerp 100 300 (swipe_t 9 20) = 190
   \<and> lerp 100 400 (swipe_t 10 20) = 250 \<and> lerp 100 300 (swipe_t 10 20) = 200
   \<and> lerp 100 400 (swipe_t 11 20) = 265 \<and> lerp 100 300 (swipe_t 11 20) = 210
   \<and> lerp 100 400 (swipe_t 12 20) = 280 \<and> lerp 100 300 (swipe_t 12 20) = 220
   \<and> lerp 100 400 (swipe_t 13 20) = 295 \<and> lerp 100 300 (swipe_t 13 20) = 230
   \<and> lerp 100 400 (swipe_t 14 20) = 310 \<and> lerp 100 300 (swipe_t 14 20) = 240
   \<and> lerp 100 400 (swipe_t 15 20) = 325 \<and> lerp 100 300 (swipe_t 15 20) = 250
   \<and> lerp 100 400 (swipe_t 16 20) = 340 \<and> lerp 100 300 (swipe_t 16 20) = 260
   \<and> lerp 100 400 (swipe_t 17 20) = 355 \<and> lerp 100 300 (swipe_t 17 20) = 270
   \<and> lerp 100 400 (swipe_t 18 20) = 370 \<and> lerp 100 300 (swipe_t 18 20) = 280
   \<and> lerp 100 400 (swipe_t 19 20) = 385 \<and> lerp 100 300 (swipe_t 19 20) = 290
   \<and> lerp 100 400 (swipe_t 20 20) = 400 \<and> lerp 100 300 (swipe_t 20 20) = 300"
  by code_simp


lemma swipe_point_20:
  assumes "i \<in> set [1..20]"
  shows "lerp 100 400 (swipe_t i 20) = word_of_int (100 + 15 * i)
     \<and> lerp 100 300 (swipe_t i 20) = word_of_int (100 + 10 * i)"
proof -
  from assms have "i \<in> {1, 2, 3, 4, 5, 6, 7, 8, 9, 10, 11, 12, 13, 14, 15, 16, 17, 18, 19, 20}"
    by simp presburger
  then show ?thesis
    using swipe_points_20 by (elim insertE emptyE) simp_all
qed

text \<open>
  Claim C3.  When \<open>swipe 100 100 400 300 500 20\<close> succeeds, it has put on the device
  the contact and release sequences of a tap at (100,100) without hold (2 frame
  commits), then 20 rounds of two interpolated positions on \<open>ABS_X\<close> and \<open>ABS_Y\<close>, one
  frame commit and a sleep of 25 ms each, then the release of \<open>BTN_TOUCH\<close> with one frame
  commit: 23 frame commits.  The \<open>i\<close>-th interpolated point is \<open>(100 + 15 i, 100 + 10 i)\<close>;
  the 20th is (400,300).
\<close>

theorem swipe_scenario:
  assumes "fst (do_swipe 100 100 400 300 500 20 s) = RS_OK"
  shows "trace (snd (do_swipe 100 100 400 300 500 20 s)) =
           trace s @ tap_actions s 100 100 0
           @ concat (map (swipe_frame s 100 100 400 300 500 20) [1..20])
           @ map Emit lift_events
     \<and> tap_actions s 100 100 0 =
           map Emit (contact_events (map_x s 100) (map_y s 100)) @ map Emit release_events
     \<and> syn_reports (tap_actions s 100 100 0) = 2
     \<and> length [1..20 :: int] = 20
     \<and> (\<forall>i \<in> set [1..20].
           swipe_frame s 100 100 400 300 500 20 i =
             [Emit (ev EV_ABS ABS_X (map_x s (lerp 100 400 (swipe_t i 20)))),
              Emit (ev EV_ABS ABS_Y (map_y s (lerp 100 300 (swipe_t i 20)))),
              Emit (ev EV_SYN SYN_REPORT 0), Usleep 25000]
           \<and> syn_reports (swipe_frame s 100 100 400 300 500 20 i) = 1)
     \<and> (\<forall>i \<in> set [1..20].
           lerp 100 400 (swipe_t i 20) = word_of_int (100 + 15 * i)
           \<and> lerp 100 300 (swipe_t i 20) = word_of_int (100 + 10 * i)
           \<and> swipe_frame s 100 100 400 300 500 20 i =
             [Emit (ev EV_ABS ABS_X (map_x s (word_of_int (100 + 15 * i)))),
              Emit (ev EV_ABS ABS_Y (map_y s (word_of_int (100 + 10 * i)))),
              Emit (ev EV_SYN SYN_REPORT 0), Usleep 25000])
     \<and> syn_reports (map Emit lift_events) = 1
     \<and> syn_reports (trace (snd (do_swipe 100 100 400 300 500 20 s))) = syn_reports (trace s) + 23
     \<and> lerp 100 400 (swipe_t 20 20) = 400 \<and> lerp 100 300 (swipe_t 20 20) = 300"
proof -
  have st: "swipe_steps 20 = 20" by (simp add: swipe_steps_def)
  have tr: "trace (snd (do_swipe 100 100 400 300 500 20 s)) =
           trace s @ tap_actions s 100 100 0
           @ concat (map (swipe_frame s 100 100 400 300 500 20) [1..20])
           @ map Emit lift_events"
    using do_swipe_ok_trace [OF assms] by (simp add: st)
  have fr: "swipe_frame s 100 100 400 300 500 20 i =
             [Emit (ev EV_ABS ABS_X (map_x s (lerp 100 400 (swipe_t i 20)))),
              Emit (ev EV_ABS ABS_Y (map_y s (lerp 100 300 (swipe_t i 20)))),
              Emit (ev EV_SYN SYN_REPORT 0), Usleep 25000]" for i
    by (simp add: swipe_frame_def frame_events_def sleep_actions_def signed_divide_int_def)
  have cnt: "syn_reports (trace (snd (do_swipe 100 100 400 300 500 20 s))) = syn_reports (trace s) + 23"
    unfolding tr by (simp add: syn_reports_frames)
  have pt: "lerp 100 400 (swipe_t 20 20) = 400 \<and> lerp 100 300 (swipe_t 20 20) = 300"
    by (simp add: lerp_def swipe_t_def f32_to_int_def f32_add_def f32_mul_def f32_div_def
        f32_of_int_def f32_round_def Let_def signed_divide_int_def)
  have tap: "tap_actions s 100 100 0 =
           map Emit (contact_events (map_x s 100) (map_y s 100)) @ map Emit release_events"
    by (simp add: tap_actions_def sleep_actions_def)
  have len: "length [1..20 :: int] = 20" by simp
  have c1: "syn_reports (tap_actions s 100 100 0) = 2" by simp
  have c2: "syn_reports (swipe_frame s 100 100 400 300 500 20 i) = 1" for i by simp
  have c3: "syn_reports (map Emit lift_events) = 1" by simp
  have pts: "lerp 100 400 (swipe_t i 20) = word_of_int (100 + 15 * i)
           \<and> lerp 100 300 (swipe_t i 20) = word_of_int (100 + 10 * i)
           \<and> swipe_frame s 100 100 400 300 500 20 i =
             [Emit (ev EV_ABS ABS_X (map_x s (word_of_int (100 + 15 * i)))),
              Emit (ev EV_ABS ABS_Y (map_y s (word_of_int (100 + 10 * i)))),
              Emit (ev EV_SYN SYN_REPORT 0), Usleep 25000]"
    if "i \<in> set [1..20]" for i
    using swipe_point_20 [OF that] fr [of i] by simp
  from tr tap c1 len fr c2 c3 cnt pt pts show ?thesis by blast
qed

theorem swipe_scenario_witness:
  "fst (do_swipe 100 100 400 300 500 20 (init_sys 0 0 0 no_abs all_ok)) = RS_OK
   \<and> syn_reports (trace (snd (do_swipe 100 100 400 300 500 20 (init_sys 0 0 0 no_abs all_ok)))) = 23
   \<and> swipe_frame (init_sys 0 0 0 no_abs all_ok) 100 100 400 300 500 20 1 =
        [Emit (ev EV_ABS ABS_X 115), Emit (ev EV_ABS ABS_Y 110),
         Emit (ev EV_SYN SYN_REPORT 0), Usleep 25000]
   \<and> swipe_frame (init_sys 0 0 0 no_abs all_ok) 100 100 400 300 500 20 20 =
        [Emit (ev EV_ABS ABS_X 400), Emit (ev EV_ABS ABS_Y 300),
         Emit (ev EV_SYN SYN_REPORT 0), Usleep 25000]"
proof -
  have ok: "fst (do_swipe 100 100 400 300 500 20 (init_sys 0 0 0 no_abs all_ok)) = RS_OK"
    by code_simp
  have id: "map_x (init_sys 0 0 0 no_abs all_ok) l = l" "map_y (init_sys 0 0 0 no_abs all_ok) l = l" for l
    by (simp_all add: map_x_def map_y_def init_sys_def)
  have tr0: "syn_reports (trace (init_sys 0 0 0 no_abs all_ok)) = 0" by (simp add: init_sys_def)
  note th = swipe_scenario [OF ok]
  from th have cnt:
    "syn_reports (trace (snd (do_swipe 100 100 400 300 500 20 (init_sys 0 0 0 no_abs all_ok))))
       = syn_reports (trace (init_sys 0 0 0 no_abs all_ok)) + 23"
    by blast
  from th have pt: "lerp 100 400 (swipe_t 20 20) = 400" "lerp 100 300 (swipe_t 20 20) = 300"
    by blast+
  from th have "\<forall>i \<in> set [1..20].
      swipe_frame (init_sys 0 0 0 no_abs all_ok) 100 100 400 300 500 20 i =
        [Emit (ev EV_ABS ABS_X (map_x (init_sys 0 0 0 no_abs all_ok) (lerp 100 400 (swipe_t i 20)))),
         Emit (ev EV_ABS ABS_Y (map_y (init_sys 0 0 0 no_abs all_ok) (lerp 100 300 (swipe_t i 20)))),
         Emit (ev EV_SYN SYN_REPORT 0), Usleep 25000]"
    by blast
  then have "swipe_frame (init_sys 0 0 0 no_abs all_ok) 100 100 400 300 500 20 20 =
        [Emit (ev EV_ABS ABS_X (lerp 100 400 (swipe_t 20 20))),
         Emit (ev EV_ABS ABS_Y (lerp 100 300 (swipe_t 20 20))),
         Emit (ev EV_SYN SYN_REPORT 0), Usleep 25000]"
    by (simp add: id)
  moreover from th have "\<forall>i \<in> set [1..20].
      swipe_frame (init_sys 0 0 0 no_abs all_ok) 100 100 400 300 500 20 i =
        [Emit (ev EV_ABS ABS_X (map_x (init_sys 0 0 0 no_abs all_ok) (word_of_int (100 + 15 * i)))),
         Emit (ev EV_ABS ABS_Y (map_y (init_sys 0 0 0 no_abs all_ok) (word_of_int (100 + 10 * i)))),
         Emit (ev EV_SYN SYN_REPORT 0), Usleep 25000]"
    by blast
  then have "swipe_frame (init_sys 0 0 0 no_abs all_ok) 100 100 400 300 500 20 1 =
        [Emit (ev EV_ABS ABS_X 115), Emit (ev EV_ABS ABS_Y 110),
         Emit (ev EV_SYN SYN_REPORT 0), Usleep 25000]"
    by (simp add: id)
  ultimately show ?thesis using ok cnt by (simp add: pt tr0)
qed

text \<open>
  Claim C10.  Whatever the device does, all that \<open>do_swipe\<close> puts on the device after
  its initial \<open>do_tap\<close> contains no multi-touch position event and no \<open>SYN_MT_REPORT\<close>.
  When the swipe succeeds, the only position events of the initial tap are on
  \<open>ABS_MT_POSITION_X\<close> and \<open>ABS_MT_POSITION_Y\<close>, and the only absolute-axis events of each
  round of the loop are the interpolated position on \<open>ABS_X\<close> and \<open>ABS_Y\<close>.
\<close>

theorem swipe_moves_on_single_touch_axes:
  "(\<exists>mv. trace (snd (do_swipe x1 y1 x2 y2 d st s)) = trace (snd (do_tap x1 y1 0 s)) @ mv
          \<and> (\<forall>a \<in> set mv. \<not> is_mt_position a \<and> \<not> is_syn_mt_report a))
   \<and> (fst (do_swipe x1 y1 x2 y2 d st s) = RS_OK \<longrightarrow>
         trace (snd (do_tap x1 y1 0 s)) = trace s @ tap_actions s x1 y1 0
       \<and> filter is_abs_event (tap_actions s x1 y1 0) =
           [Emit (ev EV_ABS ABS_MT_POSITION_X (map_x s x1)),
            Emit (ev EV_ABS ABS_MT_POSITION_Y (map_y s y1))]
       \<and> trace (snd (do_swipe x1 y1 x2 y2 d st s)) =
           trace (snd (do_tap x1 y1 0 s))
           @ concat (map (swipe_frame s x1 y1 x2 y2 d (swipe_steps st)) [1..sint (swipe_steps st)])
           @ map Emit lift_events
       \<and> (\<forall>i. filter is_abs_event (swipe_frame s x1 y1 x2 y2 d (swipe_steps st) i) =
             [Emit (ev EV_ABS ABS_X (map_x s (lerp x1 x2 (swipe_t i (swipe_steps st))))),
              Emit (ev EV_ABS ABS_Y (map_y s (lerp y1 y2 (swipe_t i (swipe_steps st)))))]))"
proof -
  have 1: "\<exists>mv. trace (snd (do_swipe x1 y1 x2 y2 d st s)) = trace (snd (do_tap x1 y1 0 s)) @ mv
          \<and> (\<forall>a \<in> set mv. \<not> is_mt_position a \<and> \<not> is_syn_mt_report a)"
    using do_swipe_st_only [of x1 y1 x2 y2 d st s] by (simp add: st_only_def)
  have 2: "filter is_abs_event (tap_actions s x1 y1 0) =
           [Emit (ev EV_ABS ABS_MT_POSITION_X (map_x s x1)),
            Emit (ev EV_ABS ABS_MT_POSITION_Y (map_y s y1))]"
    by (simp add: tap_actions_def contact_events_def release_events_def sleep_actions_def
        is_abs_event_def input_codes)
  have 3: "filter is_abs_event (swipe_frame s x1 y1 x2 y2 d (swipe_steps st) i) =
             [Emit (ev EV_ABS ABS_X (map_x s (lerp x1 x2 (swipe_t i (swipe_steps st))))),
              Emit (ev EV_ABS ABS_Y (map_y s (lerp y1 y2 (swipe_t i (swipe_steps st)))))]" for i
    by (simp add: swipe_frame_def frame_events_def sleep_actions_def is_abs_event_def input_codes)
  have 4: "trace (snd (do_tap x1 y1 0 s)) = trace s @ tap_actions s x1 y1 0
       \<and> trace (snd (do_swipe x1 y1 x2 y2 d st s)) =
           trace (snd (do_tap x1 y1 0 s))
           @ concat (map (swipe_frame s x1 y1 x2 y2 d (swipe_steps st)) [1..sint (swipe_steps st)])
           @ map Emit lift_events"
    if ok: "fst (do_swipe x1 y1 x2 y2 d st s) = RS_OK"
  proof -
    from ok have "fst (do_tap x1 y1 0 s) = RS_OK"
      by (simp add: do_swipe_chain split: prod.splits rs.splits)
    from do_tap_ok_trace [OF this] do_swipe_ok_trace [OF ok] show ?thesis by simp
  qed
  from 1 2 3 4 show ?thesis by blast
qed

theorem swipe_moves_on_single_touch_axes_witness:
  "fst (do_swipe 100 100 400 300 500 2 (init_sys 0 0 0 no_abs all_ok)) = RS_OK
   \<and> trace (snd (do_swipe 100 100 400 300 500 2 (init_sys 0 0 0 no_abs all_ok))) =
       map Emit (contact_events 100 100) @ map Emit release_events
       @ [Emit (ev EV_ABS ABS_X 250), Emit (ev EV_ABS ABS_Y 200), Emit (ev EV_SYN SYN_REPORT 0),
          Usleep 250000,
          Emit (ev EV_ABS ABS_X 400), Emit (ev EV_ABS ABS_Y 300), Emit (ev EV_SYN SYN_REPORT 0),
          Usleep 250000]
       @ map Emit lift_events"
proof -
  have ok: "fst (do_swipe 100 100 400 300 500 2 (init_sys 0 0 0 no_abs all_ok)) = RS_OK"
    by code_simp
  have id: "map_x (init_sys 0 0 0 no_abs all_ok) l = l" "map_y (init_sys 0 0 0 no_abs all_ok) l = l" for l
    by (simp_all add: map_x_def map_y_def init_sys_def)
  have tr0: "trace (init_sys 0 0 0 no_abs all_ok) = []" by (simp add: init_sys_def)
  have st: "swipe_steps 2 = 2" "[1..sint (2 :: 32 word)] = [1, 2]"
    by (simp_all add: swipe_steps_def upto_rec1)
  have p: "lerp 100 400 (swipe_t 1 2) = 250" "lerp 100 300 (swipe_t 1 2) = 200"
    "lerp 100 400 (swipe_t 2 2) = 400" "lerp 100 300 (swipe_t 2 2) = 300"
    by (simp_all add: lerp_def swipe_t_def f32_to_int_def f32_add_def f32_mul_def f32_div_def
        f32_of_int_def f32_round_def Let_def signed_divide_int_def)
  have fr: "concat (map (swipe_frame (init_sys 0 0 0 no_abs all_ok) 100 100 400 300 500 2) [1, 2]) =
       [Emit (ev EV_ABS ABS_X 250), Emit (ev EV_ABS ABS_Y 200), Emit (ev EV_SYN SYN_REPORT 0),
        Usleep 250000,
        Emit (ev EV_ABS ABS_X 400), Emit (ev EV_ABS ABS_Y 300), Emit (ev EV_SYN SYN_REPORT 0),
        Usleep 250000]"
    by (simp add: id p swipe_frame_def frame_events_def sleep_actions_def signed_divide_int_def)
  have tap: "tap_actions (init_sys 0 0 0 no_abs all_ok) 100 100 0 =
       map Emit (contact_events 100 100) @ map Emit release_events"
    by (simp add: tap_actions_def sleep_actions_def id)
  note th = swipe_moves_on_single_touch_axes [of 100 100 400 300 500 2 "init_sys 0 0 0 no_abs all_ok"]
  from th ok have
    "trace (snd (do_tap 100 100 0 (init_sys 0 0 0 no_abs all_ok))) =
       trace (init_sys 0 0 0 no_abs all_ok) @ tap_actions (init_sys 0 0 0 no_abs all_ok) 100 100 0"
    "trace (snd (do_swipe 100 100 400 300 500 2 (init_sys 0 0 0 no_abs all_ok))) =
       trace (snd (do_tap 100 100 0 (init_sys 0 0 0 no_abs all_ok)))
       @ concat (map (swipe_frame (init_sys 0 0 0 no_abs all_ok) 100 100 400 300 500 (swipe_steps 2))
                   [1..sint (swipe_steps 2)])
       @ map Emit lift_events"
    by blast+
  then have "trace (snd (do_swipe 100 100 400 300 500 2 (init_sys 0 0 0 no_abs all_ok))) =
       map Emit (contact_events 100 100) @ map Emit release_events
       @ concat (map (swipe_frame (init_sys 0 0 0 no_abs all_ok) 100 100 400 300 500 2) [1, 2])
       @ map Emit lift_events"
    unfolding st tap tr0 by simp
  with ok show ?thesis unfolding fr by simp
qed

subsection \<open>The multi-touch operations as chains of writes\<close>

lemma btn_touch_set_chain: "btn_touch_set val = chain (touch_events val)"
  by (rule ext)
    (simp add: btn_touch_set_def touch_events_def chain_def wev_def syn_def
       split: prod.split rs.split)

lemma length_mt_events [simp]:
  "length (touch_events v) = 2" "length (down_events slot tid x y) = 6"
  "length (move_events slot x y) = 5" "length (up_events slot) = 4"
  by (simp_all add: touch_events_def down_events_def move_events_def up_events_def)

lemma mt_down_chain:
  "mt_down slot lx ly s =
     (if \<not> in_bounds s slot then (RS_ERR, s)
      else if active_touches s = 0 then
        (if fst (chain (touch_events 1) (alloc slot s)) = RS_OK
         then chain (down_events slot (next_tracking_id s) (map_x s lx) (map_y s ly))
                ((snd (chain (touch_events 1) (alloc slot s)))\<lparr>active_touches := 1\<rparr>)
         else (RS_ERR, snd (chain (touch_events 1) (alloc slot s))))
      else chain (down_events slot (next_tracking_id s) (map_x s lx) (map_y s ly))
             ((alloc slot s)\<lparr>active_touches := active_touches s + 1\<rparr>))"
  by (cases "chain (touch_events 1) (alloc slot s)")
    (use chain_frame [of "touch_events 1" "alloc slot s"] in
      \<open>auto simp: mt_down_def in_bounds_def Let_def btn_touch_set_chain write_event_wev syn_wev
         first_err_chain down_events_def alloc_def next_id_def split: rs.splits\<close>)

lemma mt_move_chain:
  "mt_move slot lx ly s =
     (if \<not> in_bounds s slot then (RS_ERR, s)
      else if slot_tracking s ! nat (sint slot) = 0 then (RS_ERR, s)
      else chain (move_events slot (map_x s lx) (map_y s ly)) s)"
  by (auto simp: mt_move_def in_bounds_def Let_def write_event_wev syn_wev first_err_chain
      move_events_def)

lemma mt_up_chain:
  "mt_up slot s =
     (if \<not> in_bounds s slot then (RS_ERR, s)
      else if slot_tracking s ! nat (sint slot) = 0 then (RS_ERR, s)
      else if fst (chain (up_events slot) s) = RS_OK then
        (if sint (active_touches s - 1) \<le> 0
         then chain (touch_events 0)
                ((snd (chain (up_events slot) s))
                   \<lparr>slot_tracking := (slot_tracking s)[nat (sint slot) := 0], active_touches := 0\<rparr>)
         else (RS_OK, (snd (chain (up_events slot) s))
                   \<lparr>slot_tracking := (slot_tracking s)[nat (sint slot) := 0],
                     active_touches := active_touches s - 1\<rparr>))
      else (RS_ERR, snd (chain (up_events slot) s)))"
  by (cases "chain (up_events slot) s")
    (use chain_frame [of "up_events slot" s] in
      \<open>auto simp: mt_up_def in_bounds_def Let_def btn_touch_set_chain write_event_wev syn_wev
         first_err_chain up_events_def split: rs.splits\<close>)

lemma in_bounds_nat: "in_bounds s slot \<Longrightarrow> nat (sint slot) < length (slot_tracking s)"
  by (simp add: in_bounds_def MAX_SLOTS_def nat_less_iff)

lemma chain_fail_first:
  "\<not> wr_ok s (wr_count s) \<Longrightarrow> es \<noteq> [] \<Longrightarrow> chain es s = (RS_ERR, s\<lparr>wr_count := Suc (wr_count s)\<rparr>)"
  by (cases es) (simp_all add: chain_Cons)

lemma touch_events_fail:
  "fst (chain (touch_events v) s) = RS_ERR \<longleftrightarrow> \<not> wr_ok s (wr_count s) \<or> \<not> wr_ok s (Suc (wr_count s))"
  by (simp add: touch_events_def chain_Cons chain_Nil)

subsection \<open>Claims on the multi-touch operations\<close>

text \<open>
  Claim C6.  \<open>mt_move\<close> and \<open>mt_up\<close> on a slot that is out of bounds or whose tracking ID
  is 0 return \<open>RS_ERR\<close>, emit nothing, and leave the slot table and the active-touch
  count as they were (the whole state is unchanged: no write is even attempted).
\<close>

theorem move_up_rejected:
  assumes "\<not> in_bounds s slot \<or> slot_tracking s ! nat (sint slot) = 0"
  shows "fst (mt_move slot lx ly s) = RS_ERR \<and> fst (mt_up slot s) = RS_ERR
     \<and> trace (snd (mt_move slot lx ly s)) = trace s \<and> trace (snd (mt_up slot s)) = trace s
     \<and> slot_tracking (snd (mt_move slot lx ly s)) = slot_tracking s
     \<and> slot_tracking (snd (mt_up slot s)) = slot_tracking s
     \<and> active_touches (snd (mt_move slot lx ly s)) = active_touches s
     \<and> active_touches (snd (mt_up slot s)) = active_touches s
     \<and> snd (mt_move slot lx ly s) = s \<and> snd (mt_up slot s) = s"
  using assms by (auto simp: mt_move_def mt_up_def in_bounds_def)

theorem move_up_rejected_witness:
  "mt_move 0 10 20 (init_sys 2 0 0 no_abs all_ok) = (RS_ERR, init_sys 2 0 0 no_abs all_ok)
   \<and> mt_up 0 (init_sys 2 0 0 no_abs all_ok) = (RS_ERR, init_sys 2 0 0 no_abs all_ok)
   \<and> mt_move 2 10 20 (init_sys 2 0 0 no_abs all_ok) = (RS_ERR, init_sys 2 0 0 no_abs all_ok)
   \<and> mt_up (- 1) (init_sys 2 0 0 no_abs all_ok) = (RS_ERR, init_sys 2 0 0 no_abs all_ok)"
  using move_up_rejected [of "init_sys 2 0 0 no_abs all_ok" 0 10 20]
    move_up_rejected [of "init_sys 2 0 0 no_abs all_ok" 2 10 20]
    move_up_rejected [of "init_sys 2 0 0 no_abs all_ok" "- 1" 10 20]
  by (simp add: in_bounds_def MAX_SLOTS_def init_sys_def prod_eq_iff)

lemma all_less_add_split:
  "(\<forall>k < m + n. P (c + k)) \<longleftrightarrow> (\<forall>k < m. P (c + k)) \<and> (\<forall>k < n. P (c + m + (k :: nat)))"
proof
  assume a: "\<forall>k < m + n. P (c + k)"
  show "(\<forall>k < m. P (c + k)) \<and> (\<forall>k < n. P (c + m + k))"
  proof (intro conjI allI impI)
    fix k assume "k < m"
    then have "k < m + n" by simp
    with a show "P (c + k)" by blast
  next
    fix k assume "k < n"
    then have "m + k < m + n" by simp
    with a have "P (c + (m + k))" by blast
    then show "P (c + m + k)" by (simp add: add.assoc)
  qed
next
  assume b: "(\<forall>k < m. P (c + k)) \<and> (\<forall>k < n. P (c + m + k))"
  show "\<forall>k < m + n. P (c + k)"
  proof (intro allI impI)
    fix k assume k: "k < m + n"
    show "P (c + k)"
    proof (cases "k < m")
      case True
      with b show ?thesis by blast
    next
      case False
      with k have "k - m < n" by simp
      with b have "P (c + m + (k - m))" by blast
      with False show ?thesis by (simp add: add.assoc)
    qed
  qed
qed

text \<open>\<open>mt_down\<close> on a slot of the table succeeds exactly when every write it issues is accepted.\<close>

lemma mt_down_ok_iff:
  assumes ib: "in_bounds s slot"
  shows "fst (mt_down slot lx ly s) = RS_OK \<longleftrightarrow>
     (\<forall>k < (if active_touches s = 0 then 8 else 6). wr_ok s (wr_count s + k))"
proof (cases "active_touches s = 0")
  case False
  with ib show ?thesis
    by (simp add: mt_down_chain chain_ok_iff alloc_def)
next
  case True
  have t: "fst (chain (touch_events 1) (alloc slot s)) = RS_OK \<longleftrightarrow>
      (\<forall>k < 2. wr_ok s (wr_count s + k))"
    by (simp add: chain_ok_iff alloc_def)
  have sp: "(\<forall>k < 8. wr_ok s (wr_count s + k)) \<longleftrightarrow>
      (\<forall>k < 2. wr_ok s (wr_count s + k)) \<and> (\<forall>k < 6. wr_ok s (wr_count s + 2 + k))"
    using all_less_add_split [of 2 6 "wr_ok s" "wr_count s"] by simp
  show ?thesis
  proof (cases "fst (chain (touch_events 1) (alloc slot s)) = RS_OK")
    case ok1: True
    have d: "fst (chain (down_events slot (next_tracking_id s) (map_x s lx) (map_y s ly))
        ((snd (chain (touch_events 1) (alloc slot s)))\<lparr>active_touches := 1\<rparr>)) = RS_OK
      \<longleftrightarrow> (\<forall>k < 6. wr_ok s (wr_count s + 2 + k))"
      unfolding chain_ok_trace [OF ok1] by (simp add: chain_ok_iff alloc_def)
    from ib True ok1 d t show ?thesis
      unfolding if_P [OF True] sp by (simp add: mt_down_chain)
  next
    case False
    with ib True t show ?thesis
      unfolding if_P [OF True] sp by (simp add: mt_down_chain)
  qed
qed

text \<open>
  Claim C9.  \<open>mt_down\<close> on a slot of the table is not atomic on the tracker.  On every
  path it stores the current counter value in the slot and advances the counter.  When
  the first write fails, nothing at all has been emitted and the operation fails, so
  the table is written before any emission.  The operation returns failure exactly
  when one of the writes it issues fails (8 writes when no touch was active, 6
  otherwise), and then the slot is marked active all the same (for a counter that is
  not 0).  When no touch was active and the \<open>BTN_TOUCH\<close> write or its frame commit
  fails, the operation fails with the active-touch count not incremented; on every
  other path the count is incremented.
\<close>

theorem mt_down_not_atomic:
  assumes "in_bounds s slot"
  shows "slot_tracking (snd (mt_down slot lx ly s)) = (slot_tracking s)[nat (sint slot) := next_tracking_id s]
     \<and> next_tracking_id (snd (mt_down slot lx ly s)) = next_id (next_tracking_id s)
     \<and> (\<not> wr_ok s (wr_count s) \<longrightarrow>
           fst (mt_down slot lx ly s) = RS_ERR \<and> trace (snd (mt_down slot lx ly s)) = trace s)
     \<and> (fst (mt_down slot lx ly s) = RS_ERR \<and> next_tracking_id s \<noteq> 0 \<longrightarrow>
           slot_tracking (snd (mt_down slot lx ly s)) ! nat (sint slot) \<noteq> 0)
     \<and> (active_touches s = 0 \<and> (\<not> wr_ok s (wr_count s) \<or> \<not> wr_ok s (Suc (wr_count s))) \<longrightarrow>
           fst (mt_down slot lx ly s) = RS_ERR
         \<and> active_touches (snd (mt_down slot lx ly s)) = active_touches s)
     \<and> (active_touches s \<noteq> 0 \<or> (wr_ok s (wr_count s) \<and> wr_ok s (Suc (wr_count s))) \<longrightarrow>
           active_touches (snd (mt_down slot lx ly s)) = active_touches s + 1)
     \<and> (fst (mt_down slot lx ly s) = RS_ERR \<longleftrightarrow>
           (\<exists>k < (if active_touches s = 0 then 8 else 6). \<not> wr_ok s (wr_count s + k)))
     \<and> ((\<exists>k < (if active_touches s = 0 then 8 else 6). \<not> wr_ok s (wr_count s + k))
          \<and> next_tracking_id s \<noteq> 0 \<longrightarrow>
           fst (mt_down slot lx ly s) = RS_ERR
         \<and> slot_tracking (snd (mt_down slot lx ly s)) ! nat (sint slot) \<noteq> 0)"
proof -
  have len: "nat (sint slot) < length (slot_tracking s)"
    using assms by (rule in_bounds_nat)
  have a: "slot_tracking (alloc slot s) = (slot_tracking s)[nat (sint slot) := next_tracking_id s]"
    "next_tracking_id (alloc slot s) = next_id (next_tracking_id s)"
    "active_touches (alloc slot s) = active_touches s" "trace (alloc slot s) = trace s"
    "wr_ok (alloc slot s) = wr_ok s" "wr_count (alloc slot s) = wr_count s"
    by (simp_all add: alloc_def)
  have 1: "slot_tracking (snd (mt_down slot lx ly s)) = (slot_tracking s)[nat (sint slot) := next_tracking_id s]
     \<and> next_tracking_id (snd (mt_down slot lx ly s)) = next_id (next_tracking_id s)"
    using assms by (simp add: mt_down_chain chain_frame a)
  have 2: "fst (mt_down slot lx ly s) = RS_ERR \<and> trace (snd (mt_down slot lx ly s)) = trace s"
    if "\<not> wr_ok s (wr_count s)"
    using that assms
    by (simp add: mt_down_chain chain_fail_first a down_events_def touch_events_def)
  have 3: "slot_tracking (snd (mt_down slot lx ly s)) ! nat (sint slot) \<noteq> 0"
    if "next_tracking_id s \<noteq> 0"
    using that len 1 by simp
  have 4: "fst (mt_down slot lx ly s) = RS_ERR
         \<and> active_touches (snd (mt_down slot lx ly s)) = active_touches s"
    if "active_touches s = 0" "\<not> wr_ok s (wr_count s) \<or> \<not> wr_ok s (Suc (wr_count s))"
  proof -
    from that(2) have "fst (chain (touch_events 1) (alloc slot s)) = RS_ERR"
      by (simp add: touch_events_fail a)
    with that(1) assms show ?thesis by (simp add: mt_down_chain chain_frame a)
  qed
  have 5: "active_touches (snd (mt_down slot lx ly s)) = active_touches s + 1"
    if "active_touches s \<noteq> 0 \<or> (wr_ok s (wr_count s) \<and> wr_ok s (Suc (wr_count s)))"
  proof (cases "active_touches s = 0")
    case True
    with that have "\<not> fst (chain (touch_events 1) (alloc slot s)) = RS_ERR"
      by (simp add: touch_events_fail a)
    then have "fst (chain (touch_events 1) (alloc slot s)) = RS_OK"
      by (cases "fst (chain (touch_events 1) (alloc slot s))") simp_all
    with True assms show ?thesis by (simp add: mt_down_chain chain_frame)
  next
    case False
    with assms show ?thesis by (simp add: mt_down_chain chain_frame)
  qed
  have 6: "fst (mt_down slot lx ly s) = RS_ERR \<longleftrightarrow>
           (\<exists>k < (if active_touches s = 0 then 8 else 6). \<not> wr_ok s (wr_count s + k))"
    using mt_down_ok_iff [OF assms, of lx ly]
    by (cases "fst (mt_down slot lx ly s)") auto
  from 1 2 3 4 5 6 show ?thesis by blast
qed

theorem mt_down_not_atomic_witness:
  "fst (mt_down 0 150 150 (init_sys 2 0 0 no_abs (fail_at 0))) = RS_ERR
   \<and> trace (snd (mt_down 0 150 150 (init_sys 2 0 0 no_abs (fail_at 0)))) = []
   \<and> slot_tracking (snd (mt_down 0 150 150 (init_sys 2 0 0 no_abs (fail_at 0)))) = [1, 0]
   \<and> next_tracking_id (snd (mt_down 0 150 150 (init_sys 2 0 0 no_abs (fail_at 0)))) = 2
   \<and> active_touches (snd (mt_down 0 150 150 (init_sys 2 0 0 no_abs (fail_at 0)))) = 0
   \<and> fst (mt_down 0 150 150 (init_sys 2 0 0 no_abs (fail_at 3))) = RS_ERR
   \<and> slot_tracking (snd (mt_down 0 150 150 (init_sys 2 0 0 no_abs (fail_at 3)))) = [1, 0]
   \<and> active_touches (snd (mt_down 0 150 150 (init_sys 2 0 0 no_abs (fail_at 3)))) = 1"
proof -
  have ib: "in_bounds (init_sys 2 0 0 no_abs ok) 0" for ok
    by (simp add: in_bounds_def MAX_SLOTS_def init_sys_def)
  have f3: "\<exists>k < (if active_touches (init_sys 2 0 0 no_abs (fail_at 3)) = 0 then 8 else 6).
      \<not> wr_ok (init_sys 2 0 0 no_abs (fail_at 3)) (wr_count (init_sys 2 0 0 no_abs (fail_at 3)) + k)"
    by (rule exI [of _ 3]) (simp add: init_sys_def fail_at_def)
  from mt_down_not_atomic [OF ib [of "fail_at 0"], where lx = 150 and ly = 150]
  have a: "fst (mt_down 0 150 150 (init_sys 2 0 0 no_abs (fail_at 0))) = RS_ERR
   \<and> trace (snd (mt_down 0 150 150 (init_sys 2 0 0 no_abs (fail_at 0)))) = []
   \<and> slot_tracking (snd (mt_down 0 150 150 (init_sys 2 0 0 no_abs (fail_at 0)))) = [1, 0]
   \<and> next_tracking_id (snd (mt_down 0 150 150 (init_sys 2 0 0 no_abs (fail_at 0)))) = 2
   \<and> active_touches (snd (mt_down 0 150 150 (init_sys 2 0 0 no_abs (fail_at 0)))) = 0"
    by (simp add: init_sys_def fail_at_def next_id_def numeral_2_eq_2)
  note th = mt_down_not_atomic [OF ib [of "fail_at 3"], where lx = 150 and ly = 150]
  from th f3 have b1: "fst (mt_down 0 150 150 (init_sys 2 0 0 no_abs (fail_at 3))) = RS_ERR"
    by blast
  from th have b2: "slot_tracking (snd (mt_down 0 150 150 (init_sys 2 0 0 no_abs (fail_at 3)))) = [1, 0]"
    by (simp add: init_sys_def numeral_2_eq_2)
  have w: "wr_ok (init_sys 2 0 0 no_abs (fail_at 3)) (wr_count (init_sys 2 0 0 no_abs (fail_at 3)))
      \<and> wr_ok (init_sys 2 0 0 no_abs (fail_at 3)) (Suc (wr_count (init_sys 2 0 0 no_abs (fail_at 3))))"
    by (simp add: init_sys_def fail_at_def)
  from th w have "active_touches (snd (mt_down 0 150 150 (init_sys 2 0 0 no_abs (fail_at 3))))
      = active_touches (init_sys 2 0 0 no_abs (fail_at 3)) + 1"
    by blast
  then have b3: "active_touches (snd (mt_down 0 150 150 (init_sys 2 0 0 no_abs (fail_at 3)))) = 1"
    by (simp add: init_sys_def)
  from a b1 b2 b3 show ?thesis by blast
qed

subsection \<open>The slot tracker when every write succeeds\<close>

lemma chain_all_ok:
  "(\<forall>k. wr_ok s k) \<Longrightarrow>
     chain es s = (RS_OK, s\<lparr>wr_count := wr_count s + length es, trace := trace s @ map Emit es\<rparr>)"
  using chain_ok_trace [of es s] all_ok_chain [of s es] by (simp add: prod_eq_iff)

lemma sint_succ: "sint (a :: 32 word) + 1 < 2 ^ 31 \<Longrightarrow> sint (a + 1) = sint a + 1"
  using sint_ge [of a] by (simp add: sint_word_add signed_take_bit_int_eq_self)

lemma sint_pred: "- (2 ^ 31) \<le> sint (a :: 32 word) - 1 \<Longrightarrow> sint (a - 1) = sint a - 1"
  using sint_lt [of a] by (simp add: sint_word_diff signed_take_bit_int_eq_self)

lemma sint_eq_0_iff: "sint (a :: 32 word) = 0 \<longleftrightarrow> a = 0"
  by (metis sint_0 signed_word_eqI)

lemma next_id_eq:
  assumes "id_in_range n"
  shows "next_id n = (if n = 1000000 then 1 else n + 1)" and "id_in_range (next_id n)" and "n \<noteq> 0"
proof -
  from assms have r: "1 \<le> sint n" "sint n \<le> 1000000" by (simp_all add: id_in_range_def)
  then have s: "sint (n + 1) = sint n + 1" by (intro sint_succ) simp
  have m: "sint (1000000 :: 32 word) = 1000000" by simp
  have e: "n = 1000000 \<longleftrightarrow> sint n = 1000000"
    using m by (metis signed_word_eqI)
  show "next_id n = (if n = 1000000 then 1 else n + 1)"
    using r by (simp add: next_id_def s e)
  show "id_in_range (next_id n)"
    using r by (simp add: next_id_def s id_in_range_def)
  show "n \<noteq> 0" using r by auto
qed

lemma count_update_new:
  "k < length xs \<Longrightarrow> xs ! k = (0 :: 32 word) \<Longrightarrow> v \<noteq> 0 \<Longrightarrow>
     length (filter (\<lambda>t. t \<noteq> 0) (xs[k := v])) = Suc (length (filter (\<lambda>t. t \<noteq> 0) xs))"
proof (induction xs arbitrary: k)
  case Nil
  then show ?case by simp
next
  case (Cons x xs)
  then show ?case by (cases k) simp_all
qed

lemma count_update_clear:
  "k < length xs \<Longrightarrow> xs ! k \<noteq> (0 :: 32 word) \<Longrightarrow>
     Suc (length (filter (\<lambda>t. t \<noteq> 0) (xs[k := 0]))) = length (filter (\<lambda>t. t \<noteq> 0) xs)"
proof (induction xs arbitrary: k)
  case Nil
  then show ?case by simp
next
  case (Cons x xs)
  then show ?case by (cases k) simp_all
qed

lemma count_lt_length:
  assumes "k < length xs" "xs ! k = (0 :: 32 word)"
  shows "length (filter (\<lambda>t. t \<noteq> 0) xs) < length xs"
proof -
  have "length (filter (\<lambda>t. t \<noteq> 0) (xs[k := 1])) \<le> length (xs[k := 1])"
    by (rule length_filter_le)
  with count_update_new [OF assms, of 1] show ?thesis by simp
qed

lemma touch_asserted_append:
  "touch_asserted (tr @ as) = foldl touch_step (touch_asserted tr) as"
  by (simp add: touch_asserted_def)

lemma touch_asserted_mt [simp]:
  "touch_asserted (tr @ map Emit (down_events slot tid x y)) = touch_asserted tr"
  "touch_asserted (tr @ map Emit (move_events slot x y)) = touch_asserted tr"
  "touch_asserted (tr @ map Emit (up_events slot)) = touch_asserted tr"
  "touch_asserted (tr @ map Emit (touch_events v)) = (v \<noteq> 0)"
  by (simp_all add: touch_asserted_append down_events_def move_events_def up_events_def
      touch_events_def touch_step_def input_codes)


text \<open>What the operations do when every write succeeds.\<close>

lemma mt_down_all_ok:
  assumes ok: "\<forall>k. wr_ok s k" and ib: "in_bounds s slot"
  shows "mt_down slot lx ly s =
    (RS_OK, s\<lparr>next_tracking_id := next_id (next_tracking_id s),
       slot_tracking := (slot_tracking s)[nat (sint slot) := next_tracking_id s],
       active_touches := active_touches s + 1,
       wr_count := wr_count s + (if active_touches s = 0 then 8 else 6),
       trace := trace s @ (if active_touches s = 0 then map Emit (touch_events 1) else [])
          @ map Emit (down_events slot (next_tracking_id s) (map_x s lx) (map_y s ly))\<rparr>)"
  using ok ib by (simp add: mt_down_chain alloc_def chain_all_ok)

lemma mt_move_all_ok:
  assumes ok: "\<forall>k. wr_ok s k" and ib: "in_bounds s slot"
    and act: "slot_tracking s ! nat (sint slot) \<noteq> 0"
  shows "mt_move slot lx ly s =
    (RS_OK, s\<lparr>wr_count := wr_count s + 5,
       trace := trace s @ map Emit (move_events slot (map_x s lx) (map_y s ly))\<rparr>)"
  using ib act by (simp add: mt_move_chain chain_all_ok [OF ok])

lemma mt_up_all_ok:
  assumes ok: "\<forall>k. wr_ok s k" and ib: "in_bounds s slot"
    and act: "slot_tracking s ! nat (sint slot) \<noteq> 0"
  shows "mt_up slot s =
    (RS_OK, s\<lparr>slot_tracking := (slot_tracking s)[nat (sint slot) := 0],
       active_touches := (if sint (active_touches s - 1) \<le> 0 then 0 else active_touches s - 1),
       wr_count := wr_count s + (if sint (active_touches s - 1) \<le> 0 then 6 else 4),
       trace := trace s @ map Emit (up_events slot)
          @ (if sint (active_touches s - 1) \<le> 0 then map Emit (touch_events 0) else [])\<rparr>)"
  using ok ib act by (simp add: mt_up_chain chain_all_ok)

lemma tracker_inv_down:
  assumes inv: "tracker_inv s"
    and fresh: "in_bounds s slot \<Longrightarrow> slot_tracking s ! nat (sint slot) = 0"
  shows "tracker_inv (snd (mt_down slot lx ly s))"
proof (cases "in_bounds s slot")
  case False
  then show ?thesis using inv by (simp add: mt_down_chain)
next
  case True
  from inv have ok: "\<forall>k. wr_ok s k" and len: "length (slot_tracking s) < 2 ^ 31"
    and idr: "id_in_range (next_tracking_id s)"
    and cnt: "sint (active_touches s) = int (active_slots s)"
    and sig: "touch_asserted (trace s) \<longleftrightarrow> 0 < sint (active_touches s)"
    by (simp_all add: tracker_inv_def tracker_ok_def)
  have k: "nat (sint slot) < length (slot_tracking s)" using True by (rule in_bounds_nat)
  have z: "slot_tracking s ! nat (sint slot) = 0" using fresh [OF True] .
  have nz: "next_tracking_id s \<noteq> 0" using next_id_eq(3) [OF idr] .
  have lt: "active_slots s < length (slot_tracking s)"
    unfolding active_slots_def using k z by (rule count_lt_length)
  then have "sint (active_touches s) + 1 < 2 ^ 31" using cnt len by simp
  then have s1: "sint (active_touches s + 1) = int (active_slots s) + 1"
    using cnt by (simp add: sint_succ)
  have a0: "active_touches s = 0 \<longleftrightarrow> active_slots s = 0"
    using cnt sint_eq_0_iff [of "active_touches s"] by simp
  show ?thesis
    unfolding mt_down_all_ok [OF ok True] snd_conv tracker_inv_def tracker_ok_def
    using ok len next_id_eq(2) [OF idr] s1 sig cnt a0 count_update_new [OF k z nz]
    by (simp add: active_slots_def flip: append_assoc)
qed

lemma tracker_inv_move:
  assumes inv: "tracker_inv s"
  shows "tracker_inv (snd (mt_move slot lx ly s))"
proof (cases "in_bounds s slot \<and> slot_tracking s ! nat (sint slot) \<noteq> 0")
  case False
  then show ?thesis using inv by (auto simp: mt_move_chain)
next
  case True
  from inv have ok: "\<forall>k. wr_ok s k" by (simp add: tracker_inv_def)
  show ?thesis
    using inv True
    by (simp add: mt_move_all_ok [OF ok] tracker_inv_def tracker_ok_def active_slots_def)
qed

lemma tracker_inv_up:
  assumes inv: "tracker_inv s"
  shows "tracker_inv (snd (mt_up slot s))"
proof (cases "in_bounds s slot \<and> slot_tracking s ! nat (sint slot) \<noteq> 0")
  case False
  then show ?thesis using inv by (auto simp: mt_up_chain)
next
  case True
  from inv have ok: "\<forall>k. wr_ok s k" and len: "length (slot_tracking s) < 2 ^ 31"
    and idr: "id_in_range (next_tracking_id s)"
    and cnt: "sint (active_touches s) = int (active_slots s)"
    and sig: "touch_asserted (trace s) \<longleftrightarrow> 0 < sint (active_touches s)"
    by (simp_all add: tracker_inv_def tracker_ok_def)
  from True have ib: "in_bounds s slot" and act: "slot_tracking s ! nat (sint slot) \<noteq> 0"
    by simp_all
  have k: "nat (sint slot) < length (slot_tracking s)" using ib by (rule in_bounds_nat)
  define m where "m = length (filter (\<lambda>t. t \<noteq> 0) ((slot_tracking s)[nat (sint slot) := 0]))"
  have c: "active_slots s = Suc m"
    using count_update_clear [OF k act] by (simp add: active_slots_def m_def)
  have s1: "sint (active_touches s - 1) = int m"
    using cnt c by (simp add: sint_pred)
  have asserted: "touch_asserted (trace s)" using sig cnt c by simp
  show ?thesis
  proof (cases "m = 0")
    case True
    then have le: "sint (active_touches s - 1) \<le> 0" using s1 by simp
    show ?thesis
      unfolding mt_up_all_ok [OF ok ib act] snd_conv tracker_inv_def tracker_ok_def
      using ok len idr le True
      by (simp add: active_slots_def m_def [symmetric] flip: append_assoc)
  next
    case False
    then have gt: "\<not> sint (active_touches s - 1) \<le> 0" using s1 by simp
    show ?thesis
      unfolding mt_up_all_ok [OF ok ib act] snd_conv tracker_inv_def tracker_ok_def
      using ok len idr gt False s1 asserted
      by (simp add: active_slots_def m_def [symmetric] flip: append_assoc)
  qed
qed

lemma tracker_inv_run:
  "tracker_inv s \<Longrightarrow> fresh_downs ops s \<Longrightarrow> tracker_inv (mt_run ops s)"
proof (induction ops arbitrary: s)
  case Nil
  then show ?case by simp
next
  case (Cons c ops)
  have "tracker_inv (snd (mt_exec c s))"
  proof (cases c)
    case (MtDown slot lx ly)
    with Cons.prems show ?thesis by (simp add: tracker_inv_down split: if_splits)
  next
    case (MtMove slot lx ly)
    with Cons.prems show ?thesis by (simp add: tracker_inv_move)
  next
    case (MtUp slot)
    with Cons.prems show ?thesis by (simp add: tracker_inv_up)
  qed
  with Cons show ?case by simp
qed

lemma tracker_inv_init:
  "n < 2 ^ 31 \<Longrightarrow> \<forall>k. ok k \<Longrightarrow> tracker_inv (init_sys n w h ab ok)"
  by (simp add: tracker_inv_def tracker_ok_def init_sys_def id_in_range_def active_slots_def
      touch_asserted_def)

text \<open>
  Claim C4, as amended.  On a device that accepts every write, after every sequence of
  \<open>mt-down\<close>, \<open>mt-move\<close> and \<open>mt-up\<close> operations from the all-zero slot table in which no
  \<open>mt-down\<close> is issued for a slot that is active at that moment, the active-touch count
  equals the number of slots with a nonzero tracking ID, and \<open>BTN_TOUCH\<close> is asserted
  exactly when the count is greater than zero.  (\<open>MAX_SLOTS\<close> is an \<open>int\<close> constant, so the
  table has fewer than \<open>2^31\<close> slots.)
\<close>

theorem tracker_invariant:
  assumes "n < 2 ^ 31" and "\<forall>k. ok k" and "fresh_downs ops (init_sys n w h ab ok)"
  shows "sint (active_touches (mt_run ops (init_sys n w h ab ok)))
           = int (active_slots (mt_run ops (init_sys n w h ab ok)))
     \<and> (touch_asserted (trace (mt_run ops (init_sys n w h ab ok)))
          \<longleftrightarrow> 0 < sint (active_touches (mt_run ops (init_sys n w h ab ok))))"
  using tracker_inv_run [OF tracker_inv_init [OF assms(1,2)] assms(3)]
  by (simp add: tracker_inv_def tracker_ok_def)

theorem tracker_invariant_witness:
  "fresh_downs [MtDown 0 150 150, MtDown 1 300 150, MtMove 0 155 153, MtUp 0]
     (init_sys 2 0 0 no_abs all_ok)
   \<and> sint (active_touches (mt_run [MtDown 0 150 150, MtDown 1 300 150, MtMove 0 155 153, MtUp 0]
        (init_sys 2 0 0 no_abs all_ok))) = 1
   \<and> active_slots (mt_run [MtDown 0 150 150, MtDown 1 300 150, MtMove 0 155 153, MtUp 0]
        (init_sys 2 0 0 no_abs all_ok)) = 1
   \<and> touch_asserted (trace (mt_run [MtDown 0 150 150, MtDown 1 300 150, MtMove 0 155 153, MtUp 0]
        (init_sys 2 0 0 no_abs all_ok)))"
proof -
  have f: "fresh_downs [MtDown 0 150 150, MtDown 1 300 150, MtMove 0 155 153, MtUp 0]
     (init_sys 2 0 0 no_abs all_ok)"
    by code_simp
  have a: "active_touches (mt_run [MtDown 0 150 150, MtDown 1 300 150, MtMove 0 155 153, MtUp 0]
        (init_sys 2 0 0 no_abs all_ok)) = 1"
    by code_simp
  have n: "(2 :: nat) < 2 ^ 31" and ok: "\<forall>k. all_ok k" by (simp_all add: all_ok_def)
  have s1: "sint (1 :: 32 word) = 1" by simp
  note th = tracker_invariant [OF n ok f, unfolded a s1]
  from th have "active_slots (mt_run [MtDown 0 150 150, MtDown 1 300 150, MtMove 0 155 153, MtUp 0]
        (init_sys 2 0 0 no_abs all_ok)) = 1"
    by (simp del: mt_run.simps)
  moreover from th have "touch_asserted (trace (mt_run [MtDown 0 150 150, MtDown 1 300 150,
        MtMove 0 155 153, MtUp 0] (init_sys 2 0 0 no_abs all_ok)))"
    by (simp del: mt_run.simps)
  ultimately show ?thesis using f unfolding a s1 by blast
qed

text \<open>
  Claim C4 as stated fails on the code.  Two \<open>mt-down\<close> on slot 0, every write
  accepted: the count is 2 with one active slot.  One \<open>mt-down\<close> whose first write (of
  \<open>BTN_TOUCH\<close>) fails: the slot is active and the count is 0.  An \<open>mt-down\<close> and an \<open>mt-up\<close>
  on slot 0 where the final write of \<open>BTN_TOUCH 0\<close> (the 13th write) fails: the count is
  0 and \<open>BTN_TOUCH\<close> is still asserted.
\<close>

theorem tracker_invariant_counterexample:
  "sint (active_touches (mt_run [MtDown 0 150 150, MtDown 0 150 150] (init_sys 2 0 0 no_abs all_ok))) = 2
   \<and> active_slots (mt_run [MtDown 0 150 150, MtDown 0 150 150] (init_sys 2 0 0 no_abs all_ok)) = 1
   \<and> sint (active_touches (mt_run [MtDown 0 150 150] (init_sys 2 0 0 no_abs (fail_at 0)))) = 0
   \<and> active_slots (mt_run [MtDown 0 150 150] (init_sys 2 0 0 no_abs (fail_at 0))) = 1
   \<and> sint (active_touches (mt_run [MtDown 0 150 150, MtUp 0] (init_sys 2 0 0 no_abs (fail_at 12)))) = 0
   \<and> touch_asserted (trace (mt_run [MtDown 0 150 150, MtUp 0] (init_sys 2 0 0 no_abs (fail_at 12))))"
  by code_simp

subsection \<open>Tracking IDs\<close>

text \<open>The tracker part of the state after each operation, on every path.\<close>

lemma mt_down_tracker:
  "in_bounds s slot \<Longrightarrow>
     slot_tracking (snd (mt_down slot lx ly s)) = (slot_tracking s)[nat (sint slot) := next_tracking_id s]
     \<and> next_tracking_id (snd (mt_down slot lx ly s)) = next_id (next_tracking_id s)"
  "\<not> in_bounds s slot \<Longrightarrow> snd (mt_down slot lx ly s) = s"
  by (simp_all add: mt_down_chain chain_frame alloc_def)

lemma mt_move_tracker:
  "slot_tracking (snd (mt_move slot lx ly s)) = slot_tracking s
   \<and> next_tracking_id (snd (mt_move slot lx ly s)) = next_tracking_id s"
  by (simp add: mt_move_chain chain_frame)

lemma mt_up_tracker:
  "(slot_tracking (snd (mt_up slot s)) = slot_tracking s
      \<or> slot_tracking (snd (mt_up slot s)) = (slot_tracking s)[nat (sint slot) := 0])
   \<and> next_tracking_id (snd (mt_up slot s)) = next_tracking_id s"
  by (simp add: mt_up_chain chain_frame)

lemma distinct_filter_update_new:
  "distinct (filter P xs) \<Longrightarrow> v \<notin> set xs \<Longrightarrow> distinct (filter P (xs[j := v]))"
proof (induction xs arbitrary: j)
  case Nil
  then show ?case by simp
next
  case (Cons x xs)
  show ?case
  proof (cases j)
    case 0
    with Cons.prems show ?thesis by (auto split: if_splits)
  next
    case (Suc i)
    have "set (xs[i := v]) \<subseteq> insert v (set xs)" by (rule set_update_subset_insert)
    with Cons Suc show ?thesis by (auto split: if_splits)
  qed
qed

lemma distinct_filter_update_clear:
  "distinct (filter (\<lambda>t. t \<noteq> (0 :: 32 word)) xs) \<Longrightarrow> distinct (filter (\<lambda>t. t \<noteq> 0) (xs[j := 0]))"
proof (induction xs arbitrary: j)
  case Nil
  then show ?case by simp
next
  case (Cons x xs)
  show ?case
  proof (cases j)
    case 0
    with Cons.prems show ?thesis by (auto split: if_splits)
  next
    case (Suc i)
    have "set (xs[i := 0]) \<subseteq> insert 0 (set xs)" by (rule set_update_subset_insert)
    with Cons Suc show ?thesis by (auto split: if_splits)
  qed
qed

lemma ids_inv_down:
  assumes inv: "ids_inv k s" and ib: "in_bounds s slot" and k: "k < 1000000"
  shows "ids_inv (Suc k) (snd (mt_down slot lx ly s))"
proof -
  from inv k have nx: "sint (next_tracking_id s) = int k + 1"
    and bd: "\<forall>t \<in> set (slot_tracking s). t \<noteq> 0 \<longrightarrow> 1 \<le> sint t \<and> sint t \<le> int k"
    and ds: "distinct (filter (\<lambda>t. t \<noteq> 0) (slot_tracking s))"
    by (simp_all add: ids_inv_def)
  have idr: "id_in_range (next_tracking_id s)" using nx k by (simp add: id_in_range_def)
  have nz: "next_tracking_id s \<noteq> 0" using next_id_eq(3) [OF idr] .
  have new: "next_tracking_id s \<notin> set (slot_tracking s)"
    using bd nx nz by auto
  have st: "set ((slot_tracking s)[nat (sint slot) := next_tracking_id s])
      \<subseteq> insert (next_tracking_id s) (set (slot_tracking s))"
    by (rule set_update_subset_insert)
  have 1: "\<forall>t \<in> set ((slot_tracking s)[nat (sint slot) := next_tracking_id s]).
      t \<noteq> 0 \<longrightarrow> 1 \<le> sint t \<and> sint t \<le> int (Suc k)"
    using st bd nx by fastforce
  have 2: "distinct (filter (\<lambda>t. t \<noteq> 0) ((slot_tracking s)[nat (sint slot) := next_tracking_id s]))"
    using ds new by (rule distinct_filter_update_new)
  have m: "sint (1000000 :: 32 word) = 1000000" by simp
  have e: "next_tracking_id s = 1000000 \<longleftrightarrow> Suc k = 1000000"
  proof
    assume "next_tracking_id s = 1000000"
    then have "sint (next_tracking_id s) = 1000000" by simp
    with nx show "Suc k = 1000000" by simp
  next
    assume "Suc k = 1000000"
    with nx have "sint (next_tracking_id s) = sint (1000000 :: 32 word)" by simp
    then show "next_tracking_id s = 1000000" by (rule signed_word_eqI)
  qed
  have s1: "sint (next_tracking_id s + 1) = int k + 2"
    using nx k by (simp add: sint_succ)
  have 3: "if Suc k < 1000000 then sint (next_id (next_tracking_id s)) = int (Suc k) + 1
          else Suc k = 1000000 \<and> next_id (next_tracking_id s) = 1"
    using k e s1 by (simp add: next_id_eq(1) [OF idr])
  from 1 2 3 show ?thesis
    by (simp add: ids_inv_def mt_down_tracker(1) [OF ib])
qed


lemma ids_inv_move: "ids_inv k s \<Longrightarrow> ids_inv k (snd (mt_move slot lx ly s))"
  by (simp add: ids_inv_def mt_move_tracker)

lemma ids_inv_up:
  assumes "ids_inv k s"
  shows "ids_inv k (snd (mt_up slot s))"
proof -
  have st: "set ((slot_tracking s)[nat (sint slot) := 0]) \<subseteq> insert 0 (set (slot_tracking s))"
    by (rule set_update_subset_insert)
  from assms have "ids_inv k (s\<lparr>slot_tracking := (slot_tracking s)[nat (sint slot) := 0]\<rparr>)"
    using st by (auto simp: ids_inv_def distinct_filter_update_clear)
  with assms mt_up_tracker [of slot s] show ?thesis
    by (auto simp: ids_inv_def)
qed

lemma mt_exec_length:
  "length (slot_tracking (snd (mt_exec c s))) = length (slot_tracking s)"
proof (cases c)
  case (MtDown slot lx ly)
  then show ?thesis
    by (cases "in_bounds s slot") (simp_all add: mt_down_tracker)
next
  case (MtMove slot lx ly)
  then show ?thesis by (simp add: mt_move_tracker)
next
  case (MtUp slot)
  then show ?thesis using mt_up_tracker [of slot s] by auto
qed

lemma is_alloc_in_bounds:
  "length (slot_tracking s) = n \<Longrightarrow> is_alloc n (MtDown slot lx ly) = in_bounds s slot"
  by (simp add: is_alloc_def in_bounds_def MAX_SLOTS_def)

lemma ids_inv_run:
  "ids_inv k s \<Longrightarrow> length (slot_tracking s) = n
     \<Longrightarrow> k + length (filter (is_alloc n) ops) \<le> 1000000
     \<Longrightarrow> ids_inv (k + length (filter (is_alloc n) ops)) (mt_run ops s)"
proof (induction ops arbitrary: k s)
  case Nil
  then show ?case by simp
next
  case (Cons c ops)
  have len: "length (slot_tracking (snd (mt_exec c s))) = n"
    using Cons.prems(2) by (simp add: mt_exec_length)
  show ?case
  proof (cases "is_alloc n c")
    case True
    then obtain slot lx ly where c: "c = MtDown slot lx ly"
      by (cases c) (simp_all add: is_alloc_def)
    with True Cons.prems(2) have ib: "in_bounds s slot" by (simp add: is_alloc_in_bounds)
    from True Cons.prems(3) have k: "k < 1000000" by simp
    have "ids_inv (Suc k) (snd (mt_exec c s))"
      using ids_inv_down [OF Cons.prems(1) ib k] c by simp
    from Cons.IH [OF this len] True Cons.prems(3) show ?thesis by simp
  next
    case False
    have "ids_inv k (snd (mt_exec c s))"
    proof (cases c)
      case (MtDown slot lx ly)
      with False Cons.prems(2) have "\<not> in_bounds s slot" by (simp add: is_alloc_in_bounds)
      with MtDown Cons.prems(1) show ?thesis by (simp add: mt_down_tracker)
    next
      case (MtMove slot lx ly)
      with Cons.prems(1) show ?thesis by (simp add: ids_inv_move)
    next
      case (MtUp slot)
      with Cons.prems(1) show ?thesis by (simp add: ids_inv_up)
    qed
    from Cons.IH [OF this len] False Cons.prems(3) show ?thesis by simp
  qed
qed

lemma ids_inv_init: "ids_inv 0 (init_sys n w h ab ok)"
  by (simp add: ids_inv_def init_sys_def)

text \<open>The counter stays in \<open>1..1000000\<close> on every run.\<close>

lemma id_range_exec:
  "id_in_range (next_tracking_id s) \<Longrightarrow> id_in_range (next_tracking_id (snd (mt_exec c s)))"
proof (cases c)
  case (MtDown slot lx ly)
  assume "id_in_range (next_tracking_id s)"
  with MtDown show ?thesis
    by (cases "in_bounds s slot") (simp_all add: mt_down_tracker next_id_eq(2))
next
  case (MtMove slot lx ly)
  assume "id_in_range (next_tracking_id s)"
  with MtMove show ?thesis by (simp add: mt_move_tracker)
next
  case (MtUp slot)
  assume "id_in_range (next_tracking_id s)"
  with MtUp show ?thesis by (simp add: mt_up_tracker)
qed

lemma id_range_run:
  "id_in_range (next_tracking_id s) \<Longrightarrow> id_in_range (next_tracking_id (mt_run ops s))"
  by (induction ops arbitrary: s) (simp_all add: id_range_exec)

lemma mt_run_append: "mt_run (xs @ ys) s = mt_run ys (mt_run xs s)"
  by (induction xs arbitrary: s) simp_all

lemma held_cycle:
  assumes h: "held_state s"
  shows "held_state (mt_run tap_slot1 s)"
    and "next_tracking_id (mt_run tap_slot1 s) = next_id (next_tracking_id s)"
proof -
  from h have tr: "slot_tracking s = [1, 0]" and at: "active_touches s = 1"
    and ok: "\<forall>j. wr_ok s j" and idr: "id_in_range (next_tracking_id s)"
    by (simp_all add: held_state_def)
  have ib: "in_bounds s 1" by (simp add: in_bounds_def MAX_SLOTS_def tr)
  define s1 where "s1 = snd (mt_down 1 300 150 s)"
  have s1: "slot_tracking s1 = [1, next_tracking_id s]" "active_touches s1 = 2"
    "\<forall>j. wr_ok s1 j" "next_tracking_id s1 = next_id (next_tracking_id s)"
    using ok by (simp_all add: s1_def mt_down_all_ok [OF ok ib] tr at)
  have ib1: "in_bounds s1 1" by (simp add: in_bounds_def MAX_SLOTS_def s1)
  have act: "slot_tracking s1 ! nat (sint (1 :: 32 word)) \<noteq> 0"
    using next_id_eq(3) [OF idr] by (simp add: s1)
  have r: "mt_run tap_slot1 s = snd (mt_up 1 s1)"
    by (simp add: tap_slot1_def s1_def)
  show "held_state (mt_run tap_slot1 s)"
    unfolding r using s1(3) next_id_eq(2) [OF idr]
    by (simp add: mt_up_all_ok [OF s1(3) ib1 act] held_state_def s1)
  show "next_tracking_id (mt_run tap_slot1 s) = next_id (next_tracking_id s)"
    unfolding r by (simp add: mt_up_all_ok [OF s1(3) ib1 act] s1)
qed

lemma next_id_nat:
  assumes "sint n = int k" "1 \<le> k" "k \<le> 1000000"
  shows "sint (next_id n) = int (k mod 1000000 + 1)"
proof -
  have idr: "id_in_range n" using assms by (simp add: id_in_range_def)
  show ?thesis
  proof (cases "k = 1000000")
    case True
    with assms(1) have "sint n = sint (1000000 :: 32 word)" by simp
    then have "n = 1000000" by (rule signed_word_eqI)
    with next_id_eq(1) [OF idr] have "next_id n = 1" by simp
    with True show ?thesis by simp
  next
    case False
    with assms have lt: "k < 1000000" by simp
    then have "n \<noteq> 1000000" using assms(1) by auto
    moreover have "sint (n + 1) = int k + 1" using assms(1) lt by (simp add: sint_succ)
    ultimately show ?thesis using lt by (simp add: next_id_eq(1) [OF idr])
  qed
qed

lemma held_cycles:
  "held_state s \<Longrightarrow> sint (next_tracking_id s) = int k \<Longrightarrow> 1 \<le> k \<Longrightarrow> k \<le> 1000000 \<Longrightarrow>
     held_state (mt_run (concat (replicate j tap_slot1)) s)
     \<and> sint (next_tracking_id (mt_run (concat (replicate j tap_slot1)) s))
         = int ((k - 1 + j) mod 1000000 + 1)"
proof (induction j arbitrary: k s)
  case 0
  then show ?case by simp
next
  case (Suc j)
  define s' where "s' = mt_run tap_slot1 s"
  have h': "held_state s'" unfolding s'_def using Suc.prems(1) by (rule held_cycle(1))
  have n': "sint (next_tracking_id s') = int (k mod 1000000 + 1)"
    unfolding s'_def held_cycle(2) [OF Suc.prems(1)]
    using Suc.prems(2-4) by (rule next_id_nat)
  have r: "mt_run (concat (replicate (Suc j) tap_slot1)) s = mt_run (concat (replicate j tap_slot1)) s'"
    by (simp add: mt_run_append s'_def)
  have "(k mod 1000000 + 1 - 1 + j) mod 1000000 = (k - 1 + Suc j) mod 1000000"
    using Suc.prems(3) by (simp add: mod_add_left_eq)
  with Suc.IH [OF h' n'] show ?case unfolding r by simp
qed

text \<open>
  Claim C5, as amended.  From the all-zero slot table, as long as at most 1000000
  tracking IDs have been allocated (by \<open>mt-down\<close> operations on slots of the table),
  no two simultaneously active slots hold the same tracking ID.  On every run the
  counter stays in \<open>1..1000000\<close>; an \<open>mt-down\<close> on a slot of the table gives the slot the
  counter's value, which is never 0, and leaves the counter at the next value, or at 1
  after the value 1000000.
\<close>

theorem tracking_id_allocation:
  "(length (filter (is_alloc n) ops) \<le> 1000000 \<longrightarrow>
      distinct (active_ids (mt_run ops (init_sys n w h ab ok))))
   \<and> id_in_range (next_tracking_id (mt_run ops (init_sys n w h ab ok)))
   \<and> (in_bounds s slot \<and> id_in_range (next_tracking_id s) \<longrightarrow>
         slot_tracking (snd (mt_down slot lx ly s)) ! nat (sint slot) = next_tracking_id s
       \<and> next_tracking_id s \<noteq> 0
       \<and> next_tracking_id (snd (mt_down slot lx ly s))
           = (if next_tracking_id s = 1000000 then 1 else next_tracking_id s + 1))"
proof -
  have 1: "distinct (active_ids (mt_run ops (init_sys n w h ab ok)))"
    if "length (filter (is_alloc n) ops) \<le> 1000000"
    using ids_inv_run [OF ids_inv_init, of n w h ab ok n ops] that
    by (simp add: ids_inv_def init_sys_def active_ids_def)
  have 2: "id_in_range (next_tracking_id (mt_run ops (init_sys n w h ab ok)))"
    by (rule id_range_run) (simp add: init_sys_def id_in_range_def)
  have 3: "slot_tracking (snd (mt_down slot lx ly s)) ! nat (sint slot) = next_tracking_id s
       \<and> next_tracking_id s \<noteq> 0
       \<and> next_tracking_id (snd (mt_down slot lx ly s))
           = (if next_tracking_id s = 1000000 then 1 else next_tracking_id s + 1)"
    if "in_bounds s slot" "id_in_range (next_tracking_id s)"
    using that in_bounds_nat [OF that(1)] next_id_eq [OF that(2)]
    by (simp add: mt_down_tracker)
  from 1 2 3 show ?thesis by blast
qed

theorem tracking_id_allocation_witness:
  "length (filter (is_alloc 2) [MtDown 0 150 150, MtDown 1 300 150]) \<le> 1000000
   \<and> active_ids (mt_run [MtDown 0 150 150, MtDown 1 300 150] (init_sys 2 0 0 no_abs all_ok)) = [1, 2]
   \<and> distinct (active_ids (mt_run [MtDown 0 150 150, MtDown 1 300 150] (init_sys 2 0 0 no_abs all_ok)))
   \<and> in_bounds (init_sys 2 0 0 no_abs all_ok) 1
   \<and> id_in_range (next_tracking_id (init_sys 2 0 0 no_abs all_ok))
   \<and> slot_tracking (snd (mt_down 1 300 150 (init_sys 2 0 0 no_abs all_ok))) ! nat (sint (1 :: 32 word)) = 1
   \<and> next_tracking_id (snd (mt_down 1 300 150 (init_sys 2 0 0 no_abs all_ok))) = 2"
proof -
  have l: "length (filter (is_alloc 2) [MtDown 0 150 150, MtDown 1 300 150]) \<le> 1000000"
    by (simp add: is_alloc_def)
  have a: "active_ids (mt_run [MtDown 0 150 150, MtDown 1 300 150] (init_sys 2 0 0 no_abs all_ok)) = [1, 2]"
    by code_simp
  have ib: "in_bounds (init_sys 2 0 0 no_abs all_ok) 1"
    by (simp add: in_bounds_def MAX_SLOTS_def init_sys_def)
  have idr: "id_in_range (next_tracking_id (init_sys 2 0 0 no_abs all_ok))"
    by (simp add: id_in_range_def init_sys_def)
  have n: "next_tracking_id (init_sys 2 0 0 no_abs all_ok) = 1" by (simp add: init_sys_def)
  note th = tracking_id_allocation [of 2 "[MtDown 0 150 150, MtDown 1 300 150]" 0 0 no_abs all_ok
      "init_sys 2 0 0 no_abs all_ok" 1 300 150]
  from th l have d: "distinct (active_ids (mt_run [MtDown 0 150 150, MtDown 1 300 150]
      (init_sys 2 0 0 no_abs all_ok)))"
    by blast
  from th ib idr have
    "slot_tracking (snd (mt_down 1 300 150 (init_sys 2 0 0 no_abs all_ok))) ! nat (sint (1 :: 32 word))
       = next_tracking_id (init_sys 2 0 0 no_abs all_ok)"
    "next_tracking_id (snd (mt_down 1 300 150 (init_sys 2 0 0 no_abs all_ok)))
       = (if next_tracking_id (init_sys 2 0 0 no_abs all_ok) = 1000000 then 1
          else next_tracking_id (init_sys 2 0 0 no_abs all_ok) + 1)"
    by blast+
  then have
    "slot_tracking (snd (mt_down 1 300 150 (init_sys 2 0 0 no_abs all_ok))) ! nat (sint (1 :: 32 word)) = 1"
    "next_tracking_id (snd (mt_down 1 300 150 (init_sys 2 0 0 no_abs all_ok))) = 2"
    unfolding n by simp_all
  with l a d ib idr show ?thesis by blast
qed

text \<open>
  Claim C5 as stated fails once the counter has wrapped.  On a device with two slots
  that accepts every write: \<open>mt-down 0\<close> takes ID 1 and stays down; 999999 rounds of
  \<open>mt-down 1\<close>, \<open>mt-up 1\<close> take the IDs 2 to 1000000 and wrap the counter to 1; a further
  \<open>mt-down 1\<close> takes ID 1 again, while slot 0 still holds it.
\<close>

theorem tracking_id_allocation_counterexample:
  "slot_tracking (mt_run reuse_run (init_sys 2 0 0 no_abs all_ok)) = [1, 1]
   \<and> active_ids (mt_run reuse_run (init_sys 2 0 0 no_abs all_ok)) = [1, 1]
   \<and> \<not> distinct (active_ids (mt_run reuse_run (init_sys 2 0 0 no_abs all_ok)))"
proof -
  define s0 where "s0 = init_sys 2 0 0 no_abs all_ok"
  define s1 where "s1 = snd (mt_down 0 150 150 s0)"
  define s2 where "s2 = mt_run (concat (replicate 999999 tap_slot1)) s1"
  have ok0: "\<forall>k. wr_ok s0 k" by (simp add: s0_def init_sys_def all_ok_def)
  have ib0: "in_bounds s0 0" by (simp add: s0_def in_bounds_def MAX_SLOTS_def init_sys_def)
  have nid: "next_id 1 = 2" by (simp add: next_id_def)
  have h1: "held_state s1"
    unfolding s1_def mt_down_all_ok [OF ok0 ib0] snd_conv
    by (simp add: held_state_def s0_def init_sys_def all_ok_def nid id_in_range_def numeral_2_eq_2)
  have n1: "sint (next_tracking_id s1) = int 2"
    unfolding s1_def mt_down_all_ok [OF ok0 ib0] snd_conv
    by (simp add: s0_def init_sys_def nid)
  have "held_state s2 \<and> sint (next_tracking_id s2) = int ((2 - 1 + 999999) mod 1000000 + 1)"
    unfolding s2_def by (rule held_cycles [OF h1 n1]) simp_all
  then have h2: "held_state s2" and "sint (next_tracking_id s2) = sint (1 :: 32 word)"
    by simp_all
  then have n2: "next_tracking_id s2 = 1" by (intro signed_word_eqI)
  from h2 have tr2: "slot_tracking s2 = [1, 0]" by (simp add: held_state_def)
  then have ib2: "in_bounds s2 1" by (simp add: in_bounds_def MAX_SLOTS_def)
  have run: "mt_run reuse_run s0 = snd (mt_down 1 300 150 s2)"
    unfolding reuse_run_def mt_run.simps mt_exec.simps mt_run_append s2_def s1_def ..
  have "slot_tracking (mt_run reuse_run s0) = [1, 1]"
    unfolding run using mt_down_tracker(1) [OF ib2, of 300 150] by (simp add: tr2 n2)
  then show ?thesis unfolding s0_def by (simp add: active_ids_def)
qed

subsection \<open>Frame commits of the gestures\<close>

lemma syn_reports_mt [simp]:
  "syn_reports (map Emit (touch_events v)) = 1"
  "syn_reports (map Emit (down_events slot tid x y)) = 1"
  "syn_reports (map Emit (move_events slot x y)) = 1"
  "syn_reports (map Emit (up_events slot)) = 1"
  by (simp_all add: touch_events_def down_events_def move_events_def up_events_def
      is_syn_report_def input_codes)

lemma alloc_fields [simp]:
  "trace (alloc slot s) = trace s" "wr_count (alloc slot s) = wr_count s"
  "active_touches (alloc slot s) = active_touches s"
  by (simp_all add: alloc_def)

lemma mt_down_ok_trace:
  assumes ok: "fst (mt_down slot lx ly s) = RS_OK"
  shows "trace (snd (mt_down slot lx ly s)) =
           trace s @ (if active_touches s = 0 then map Emit (touch_events 1) else [])
           @ map Emit (down_events slot (next_tracking_id s) (map_x s lx) (map_y s ly))"
proof -
  from ok have ib: "in_bounds s slot" by (simp add: mt_down_chain split: if_splits)
  show ?thesis
  proof (cases "active_touches s = 0")
    case True
    define s1 where "s1 = snd (chain (touch_events 1) (alloc slot s))"
    from ok ib True have ok1: "fst (chain (touch_events 1) (alloc slot s)) = RS_OK"
      by (simp add: mt_down_chain split: if_splits)
    with ok ib True have ok2:
      "fst (chain (down_events slot (next_tracking_id s) (map_x s lx) (map_y s ly))
         (s1\<lparr>active_touches := 1\<rparr>)) = RS_OK"
      by (simp add: mt_down_chain s1_def)
    have t1: "trace s1 = trace s @ map Emit (touch_events 1)"
      unfolding s1_def chain_ok_trace [OF ok1] by simp
    have "snd (mt_down slot lx ly s) =
        snd (chain (down_events slot (next_tracking_id s) (map_x s lx) (map_y s ly))
         (s1\<lparr>active_touches := 1\<rparr>))"
      using ib True ok1 by (simp add: mt_down_chain s1_def)
    then show ?thesis
      unfolding chain_ok_trace [OF ok2] using True by (simp add: t1)
  next
    case False
    with ok ib have ok2:
      "fst (chain (down_events slot (next_tracking_id s) (map_x s lx) (map_y s ly))
         ((alloc slot s)\<lparr>active_touches := active_touches s + 1\<rparr>)) = RS_OK"
      by (simp add: mt_down_chain)
    have "snd (mt_down slot lx ly s) =
        snd (chain (down_events slot (next_tracking_id s) (map_x s lx) (map_y s ly))
         ((alloc slot s)\<lparr>active_touches := active_touches s + 1\<rparr>))"
      using ib False by (simp add: mt_down_chain)
    then show ?thesis
      unfolding chain_ok_trace [OF ok2] using False by simp
  qed
qed

lemma mt_move_ok_trace:
  assumes ok: "fst (mt_move slot lx ly s) = RS_OK"
  shows "trace (snd (mt_move slot lx ly s)) =
           trace s @ map Emit (move_events slot (map_x s lx) (map_y s ly))"
proof -
  from ok have c: "mt_move slot lx ly s = chain (move_events slot (map_x s lx) (map_y s ly)) s"
    by (simp add: mt_move_chain split: if_splits)
  with ok have "fst (chain (move_events slot (map_x s lx) (map_y s ly)) s) = RS_OK" by simp
  from chain_ok_trace [OF this] show ?thesis by (simp add: c)
qed

lemma mt_up_ok_trace:
  assumes ok: "fst (mt_up slot s) = RS_OK"
  shows "trace (snd (mt_up slot s)) =
           trace s @ map Emit (up_events slot)
           @ (if sint (active_touches s - 1) \<le> 0 then map Emit (touch_events 0) else [])"
proof -
  from ok have ib: "in_bounds s slot" and act: "slot_tracking s ! nat (sint slot) \<noteq> 0"
    by (simp_all add: mt_up_chain split: if_splits)
  from ok ib act have ok1: "fst (chain (up_events slot) s) = RS_OK"
    by (simp add: mt_up_chain split: if_splits)
  define s1 where "s1 = snd (chain (up_events slot) s)"
  have t1: "trace s1 = trace s @ map Emit (up_events slot)"
    unfolding s1_def chain_ok_trace [OF ok1] by simp
  show ?thesis
  proof (cases "sint (active_touches s - 1) \<le> 0")
    case True
    define s2 where "s2 = s1\<lparr>slot_tracking := (slot_tracking s)[nat (sint slot) := 0],
        active_touches := 0\<rparr>"
    have u: "mt_up slot s = chain (touch_events 0) s2"
      using ib act ok1 True by (simp add: mt_up_chain s1_def s2_def)
    with ok have ok2: "fst (chain (touch_events 0) s2) = RS_OK" by simp
    show ?thesis
      unfolding u chain_ok_trace [OF ok2] using True by (simp add: s2_def t1)
  next
    case False
    then show ?thesis
      using ib act ok1 by (simp add: mt_up_chain t1 [unfolded s1_def])
  qed
qed

lemma do_tap_syn:
  "fst (do_tap lx ly h s) = RS_OK \<Longrightarrow>
     syn_reports (trace (snd (do_tap lx ly h s))) = syn_reports (trace s) + 2"
  by (simp add: do_tap_ok_trace)

lemma do_swipe_syn:
  "fst (do_swipe x1 y1 x2 y2 d st s) = RS_OK \<Longrightarrow>
     syn_reports (trace (snd (do_swipe x1 y1 x2 y2 d st s)))
       = syn_reports (trace s) + (if sint st < 1 then 10 else nat (sint st)) + 3"
  by (simp add: do_swipe_ok_trace syn_reports_frames) (simp add: swipe_steps_def)

text \<open>
  Claim C2, as amended.  The number of \<open>SYN_REPORT\<close> markers that a gesture emits when
  it succeeds: \<open>tap\<close> and \<open>longpress\<close> 2; \<open>swipe\<close> \<open>n + 3\<close>, where \<open>n\<close> is the step count,
  or 10 when the given step count is below 1 (2 for the initial tap, one per round,
  one for the release); \<open>mt-move\<close> 1; \<open>mt-down\<close> 2 when no touch was active (the
  \<open>BTN_TOUCH\<close> assertion is committed in a frame of its own) and 1 otherwise; \<open>mt-up\<close> 2
  when it lifts the last touch (the \<open>BTN_TOUCH\<close> release has its own frame) and 1
  otherwise.
\<close>

theorem frame_commit_counts:
  "(fst (do_tap lx ly hold_ms s) = RS_OK \<longrightarrow>
      syn_reports (trace (snd (do_tap lx ly hold_ms s))) = syn_reports (trace s) + 2)
   \<and> (fst (do_longpress lx ly hold_ms s) = RS_OK \<longrightarrow>
      syn_reports (trace (snd (do_longpress lx ly hold_ms s))) = syn_reports (trace s) + 2)
   \<and> (fst (do_swipe x1 y1 x2 y2 duration_ms steps s) = RS_OK \<longrightarrow>
      syn_reports (trace (snd (do_swipe x1 y1 x2 y2 duration_ms steps s)))
        = syn_reports (trace s) + (if sint steps < 1 then 10 else nat (sint steps)) + 3)
   \<and> (fst (mt_down slot lx ly s) = RS_OK \<longrightarrow>
      syn_reports (trace (snd (mt_down slot lx ly s)))
        = syn_reports (trace s) + (if active_touches s = 0 then 2 else 1))
   \<and> (fst (mt_move slot lx ly s) = RS_OK \<longrightarrow>
      syn_reports (trace (snd (mt_move slot lx ly s))) = syn_reports (trace s) + 1)
   \<and> (fst (mt_up slot s) = RS_OK \<longrightarrow>
      syn_reports (trace (snd (mt_up slot s)))
        = syn_reports (trace s) + (if sint (active_touches s - 1) \<le> 0 then 2 else 1))"
  by (simp add: do_tap_syn do_longpress_def do_swipe_syn mt_down_ok_trace mt_move_ok_trace
      mt_up_ok_trace)

theorem frame_commit_counts_witness:
  "syn_reports (trace (snd (do_tap 200 150 100 (init_sys 2 0 0 no_abs all_ok)))) = 2
   \<and> syn_reports (trace (snd (do_longpress 300 200 2000 (init_sys 2 0 0 no_abs all_ok)))) = 2
   \<and> syn_reports (trace (snd (do_swipe 100 100 400 300 500 2 (init_sys 2 0 0 no_abs all_ok)))) = 5
   \<and> syn_reports (trace (snd (mt_down 0 150 150 (init_sys 2 0 0 no_abs all_ok)))) = 2
   \<and> syn_reports (trace (snd (mt_down 1 300 150 (snd (mt_down 0 150 150 (init_sys 2 0 0 no_abs all_ok))))))
       = syn_reports (trace (snd (mt_down 0 150 150 (init_sys 2 0 0 no_abs all_ok)))) + 1
   \<and> syn_reports (trace (snd (mt_move 0 155 153 (snd (mt_down 0 150 150 (init_sys 2 0 0 no_abs all_ok))))))
       = syn_reports (trace (snd (mt_down 0 150 150 (init_sys 2 0 0 no_abs all_ok)))) + 1
   \<and> syn_reports (trace (snd (mt_up 0 (snd (mt_down 0 150 150 (init_sys 2 0 0 no_abs all_ok))))))
       = syn_reports (trace (snd (mt_down 0 150 150 (init_sys 2 0 0 no_abs all_ok)))) + 2"
proof -
  define s0 where "s0 = init_sys 2 0 0 no_abs all_ok"
  define sd where "sd = snd (mt_down 0 150 150 s0)"
  have t0: "syn_reports (trace s0) = 0" by (simp add: s0_def init_sys_def)
  have a0: "active_touches s0 = 0" by (simp add: s0_def init_sys_def)
  have ad: "active_touches sd = 1" unfolding sd_def s0_def by code_simp
  have ok: "fst (do_tap 200 150 100 s0) = RS_OK" "fst (do_longpress 300 200 2000 s0) = RS_OK"
    "fst (do_swipe 100 100 400 300 500 2 s0) = RS_OK" "fst (mt_down 0 150 150 s0) = RS_OK"
    "fst (mt_down 1 300 150 sd) = RS_OK" "fst (mt_move 0 155 153 sd) = RS_OK"
    "fst (mt_up 0 sd) = RS_OK"
    unfolding sd_def s0_def by code_simp+
  have 1: "syn_reports (trace (snd (do_tap 200 150 100 s0))) = 2"
    using frame_commit_counts [where s = s0 and lx = 200 and ly = 150 and hold_ms = 100] ok(1)
    unfolding t0 by simp
  have 2: "syn_reports (trace (snd (do_longpress 300 200 2000 s0))) = 2"
    using frame_commit_counts [where s = s0 and lx = 300 and ly = 200 and hold_ms = 2000] ok(2)
    unfolding t0 by simp
  have 3: "syn_reports (trace (snd (do_swipe 100 100 400 300 500 2 s0))) = 5"
    using frame_commit_counts [where s = s0 and ?x1.0 = 100 and ?y1.0 = 100 and ?x2.0 = 400
        and ?y2.0 = 300 and duration_ms = 500 and steps = 2] ok(3)
    unfolding t0 by simp
  have 4: "syn_reports (trace (snd (mt_down 0 150 150 s0))) = 2"
    using frame_commit_counts [where s = s0 and slot = 0 and lx = 150 and ly = 150] ok(4)
    unfolding t0 a0 by simp
  have 5: "syn_reports (trace (snd (mt_down 1 300 150 sd))) = syn_reports (trace sd) + 1"
    using frame_commit_counts [where s = sd and slot = 1 and lx = 300 and ly = 150] ok(5)
    unfolding ad by simp
  have 6: "syn_reports (trace (snd (mt_move 0 155 153 sd))) = syn_reports (trace sd) + 1"
    using frame_commit_counts [where s = sd and slot = 0 and lx = 155 and ly = 153] ok(6)
    by simp
  have 7: "syn_reports (trace (snd (mt_up 0 sd))) = syn_reports (trace sd) + 2"
    using frame_commit_counts [where s = sd and slot = 0] ok(7)
    unfolding ad by simp
  from 1 2 3 4 5 6 7 show ?thesis unfolding sd_def s0_def by blast
qed

text \<open>
  Claim C2 as stated fails: \<open>swipe 100 100 400 300 500 20\<close> succeeds with 23 frame
  commits, not \<open>20 + 2\<close>; the first \<open>mt-down\<close> succeeds with 2, not 1; the \<open>mt-up\<close> of the
  only touch succeeds with 2, not 1.
\<close>

theorem frame_commit_counts_counterexample:
  "fst (do_swipe 100 100 400 300 500 20 (init_sys 2 0 0 no_abs all_ok)) = RS_OK
   \<and> syn_reports (trace (snd (do_swipe 100 100 400 300 500 20 (init_sys 2 0 0 no_abs all_ok)))) = 23
   \<and> syn_reports (trace (snd (do_swipe 100 100 400 300 500 20 (init_sys 2 0 0 no_abs all_ok)))) \<noteq> 20 + 2
   \<and> fst (mt_down 0 150 150 (init_sys 2 0 0 no_abs all_ok)) = RS_OK
   \<and> syn_reports (trace (snd (mt_down 0 150 150 (init_sys 2 0 0 no_abs all_ok)))) = 2
   \<and> fst (mt_up 0 (snd (mt_down 0 150 150 (init_sys 2 0 0 no_abs all_ok)))) = RS_OK
   \<and> syn_reports (trace (snd (mt_up 0 (snd (mt_down 0 150 150 (init_sys 2 0 0 no_abs all_ok))))))
       = syn_reports (trace (snd (mt_down 0 150 150 (init_sys 2 0 0 no_abs all_ok)))) + 2"
  by code_simp

end
